theory Spec2Isabelle
  imports Complex_Main "HOL-Library.Finite_Map"
begin

section \<open>Errors\<close>

text \<open>
  Every failure of the source is a JavaScript \<open>Error\<close> carrying a message. The first
  three constructors stand for the three messages the source builds, with the values
  interpolated into them:
  \<^item> \<open>Bad parentheses syntax at index i\<close>;
  \<^item> \<open>Incorrect number of values passed: should be n and is k\<close>;
  \<^item> \<open>Missing value for variable v\<close>.

  \<open>TypeError\<close> is what the runtime raises when a property of \<open>undefined\<close> is read
  or a value that is no function is called. \<open>Front_end_error\<close> is whatever the
  modules \<open>lexer.js\<close>, \<open>syntax_check.js\<close> and \<open>parse.js\<close> throw.
\<close>

datatype error =
    Bad_parentheses_syntax nat
  | Incorrect_number_of_values nat nat
  | Missing_value string
  | TypeError
  | Front_end_error string

section \<open>The parenthesis resolver\<close>

text \<open>
  The resolver reads only the field \<open>type\<close> of a token, and compares it as a string.
  The other fields of a token are made by the lexer and are not read here.
\<close>

record token =
  ttype :: string

text \<open>
  A block as the resolver builds it, \<open>{start, end, level}\<close>; \<open>end\<close> is \<open>null\<close>
  (here \<open>None\<close>) until the block is closed.
\<close>

record paren =
  start :: nat
  end' :: "nat option"
  level :: int

text \<open>The test \<open>!parens[p].end\<close>: \<open>null\<close> and \<open>0\<close> are the falsy values.\<close>

definition falsy :: "nat option \<Rightarrow> bool" where
  "falsy e = (case e of None \<Rightarrow> True | Some n \<Rightarrow> n = 0)"

text \<open>
  The inner loop \<open>for (let p = parens.length - 1; p >= 0; p--)\<close>. The counter of
  the recursion is \<open>p + 1\<close>, so that \<open>p >= 0\<close> is the successor case; the first block
  met with a falsy \<open>end\<close> gets \<open>end = e\<close>, and the loop breaks.
\<close>

fun close_last :: "paren list \<Rightarrow> nat \<Rightarrow> nat \<Rightarrow> paren list" where
  "close_last parens 0 e = parens"
| "close_last parens (Suc p) e =
     (if falsy (end' (parens ! p))
      then parens[p := (parens ! p)\<lparr>end' := Some e\<rparr>]
      else close_last parens p e)"

text \<open>
  The outer loop \<open>for (let i = 0; i < tokens.length; i++)\<close>, with the state
  \<open>parens\<close>, \<open>level\<close>. The \<open>throw\<close> ends the loop with the error.
\<close>

function parentheses_loop :: "token list \<Rightarrow> nat \<Rightarrow> paren list \<Rightarrow> int \<Rightarrow> error + paren list" where
  "parentheses_loop tokens i parens lv =
     (if i < length tokens then
        (if ttype (tokens ! i) = ''paren_open'' then
           parentheses_loop tokens (i + 1)
             (parens @ [\<lparr>start = i, end' = None, level = lv + 1\<rparr>]) (lv + 1)
         else if ttype (tokens ! i) = ''paren_close'' then
           (if lv - 1 < 0 then Inl (Bad_parentheses_syntax i)
            else parentheses_loop tokens (i + 1)
                   (close_last parens (length parens) (i + 1)) (lv - 1))
         else parentheses_loop tokens (i + 1) parens lv)
      else Inr parens)"
  by pat_completeness auto
termination
  by (relation "measure (\<lambda>(tokens, i, parens, lv). length tokens - i)") auto

declare parentheses_loop.simps [simp del]

definition parentheses :: "token list \<Rightarrow> error + paren list" where
  "parentheses tokens = parentheses_loop tokens 0 [] 0"

section \<open>The evaluators\<close>

subsection \<open>Parse trees and values\<close>

text \<open>
  A node of the parse tree, as the two tree walks read it: the field \<open>type\<close> selects
  the constructor, and the remaining fields are the ones the walks use.
  \<^item> \<open>Block child\<close>: \<open>type = 'block'\<close>; \<open>child\<close> is an array, of which only
    \<open>child[0]\<close> is read;
  \<^item> \<open>Unary_operator operator child\<close>: \<open>type = 'unary_operator'\<close>;
  \<^item> \<open>Binary_operator operator left right\<close>: \<open>type = 'binary_operator'\<close>;
  \<^item> \<open>Literal v\<close>: \<open>type = 'literal'\<close>, \<open>value = v\<close>;
  \<^item> \<open>Variable name\<close>: \<open>type = 'variable'\<close>;
  \<^item> \<open>Other_node t\<close>: any other \<open>type\<close>, which no branch of the walks matches.

  Operators are strings, compared with \<open>===\<close> as in the source.
\<close>

datatype node =
    Block "node list"
  | Unary_operator string node
  | Binary_operator string node node
  | Literal string
  | Variable string
  | Other_node string

text \<open>What a walk returns: a number, or \<open>undefined\<close> when no branch returns.\<close>

datatype 'n jsval = Num 'n | Undefined

text \<open>
  The arithmetic of the language is not code of the repository. It is a parameter: a
  type \<open>'n\<close> of numbers with the operators \<open>+ - * / **\<close>, unary minus, \<open>NaN\<close>,
  \<open>parseFloat\<close> and \<open>parseInt\<close> with radix 10. Every theorem below that speaks of
  a \<open>'n numeric\<close> holds for all such operations, IEEE doubles included.
\<close>

record 'n numeric =
  js_add :: "'n \<Rightarrow> 'n \<Rightarrow> 'n"
  js_sub :: "'n \<Rightarrow> 'n \<Rightarrow> 'n"
  js_mul :: "'n \<Rightarrow> 'n \<Rightarrow> 'n"
  js_div :: "'n \<Rightarrow> 'n \<Rightarrow> 'n"
  js_pow :: "'n \<Rightarrow> 'n \<Rightarrow> 'n"
  js_neg :: "'n \<Rightarrow> 'n"
  js_nan :: "'n"
  js_parseFloat :: "string \<Rightarrow> 'n"
  js_parseInt :: "string \<Rightarrow> 'n"

text \<open>An arithmetic operator converts its operands to numbers: \<open>undefined\<close> to \<open>NaN\<close>.\<close>

definition to_number :: "'n numeric \<Rightarrow> 'n jsval \<Rightarrow> 'n" where
  "to_number N v = (case v of Num x \<Rightarrow> x | Undefined \<Rightarrow> js_nan N)"

text \<open>
  A unary and a binary arithmetic expression over subexpressions that may throw: the
  left operand is evaluated first, and an exception leaves the expression.
\<close>

definition unary :: "'n numeric \<Rightarrow> ('n \<Rightarrow> 'n) \<Rightarrow> error + 'n jsval \<Rightarrow> error + 'n jsval" where
  "unary N f a = (case a of Inl e \<Rightarrow> Inl e | Inr x \<Rightarrow> Inr (Num (f (to_number N x))))"

definition binary ::
  "'n numeric \<Rightarrow> ('n \<Rightarrow> 'n \<Rightarrow> 'n) \<Rightarrow> error + 'n jsval \<Rightarrow> error + 'n jsval \<Rightarrow> error + 'n jsval" where
  "binary N f a b =
     (case a of
        Inl e \<Rightarrow> Inl e
      | Inr x \<Rightarrow>
          (case b of
             Inl e \<Rightarrow> Inl e
           | Inr y \<Rightarrow> Inr (Num (f (to_number N x) (to_number N y)))))"

text \<open>
  The bindings are an object with numbers as values: a finite map. \<open>values[name]\<close> is
  \<open>undefined\<close> for a name that is no key (properties inherited from
  \<open>Object.prototype\<close> are left out of the model).
\<close>

type_synonym 'n bindings = "(string, 'n) fmap"

definition get_property :: "'n bindings \<Rightarrow> string \<Rightarrow> 'n jsval" where
  "get_property values name = (case fmlookup values name of None \<Rightarrow> Undefined | Some x \<Rightarrow> Num x)"

text \<open>\<open>Object.keys(variables).length\<close>.\<close>

definition keys_length :: "'n bindings \<Rightarrow> nat" where
  "keys_length variables = fcard (fmdom variables)"

text \<open>
  \<open>variables.hasOwnProperty(v)\<close>: the method is looked up on the bindings
  themselves. When the bindings have an own key \<open>hasOwnProperty\<close>, the lookup finds
  its value, a number, and the call of a number raises a \<open>TypeError\<close>. Otherwise the
  method inherited from \<open>Object.prototype\<close> tells whether \<open>v\<close> is an own key.
\<close>

definition hasOwnProperty :: "'n bindings \<Rightarrow> string \<Rightarrow> error + bool" where
  "hasOwnProperty variables v =
     (if ''hasOwnProperty'' |\<in>| fmdom variables then Inl TypeError
      else Inr (v |\<in>| fmdom variables))"

text \<open>
  The loop \<open>for (let v of unknowns) if (!variables.hasOwnProperty(v)) throw
  Error(`Missing value for variable ${v}`)\<close>, which \<open>calc\<close> and
  \<open>fastEvaluate\<close> both contain. The result is the error thrown, or \<open>None\<close> when
  the loop runs to its end.
\<close>

fun missing_value_loop :: "'n bindings \<Rightarrow> string list \<Rightarrow> error option" where
  "missing_value_loop variables [] = None"
| "missing_value_loop variables (v # vs) =
     (case hasOwnProperty variables v of
        Inl e \<Rightarrow> Some e
      | Inr present \<Rightarrow>
          if \<not> present then Some (Missing_value v)
          else missing_value_loop variables vs)"

subsection \<open>The direct walk (\<open>traverse\<close> of \<open>fastEvaluate\<close>)\<close>

text \<open>
  \<open>child[0]\<close> of an empty array is \<open>undefined\<close>, and reading its \<open>type\<close> raises
  a \<open>TypeError\<close>. An operator that no \<open>if\<close> matches falls out of the chain, and the
  function returns \<open>undefined\<close>.
\<close>

fun fast_traverse :: "'n numeric \<Rightarrow> node \<Rightarrow> 'n bindings \<Rightarrow> error + 'n jsval" where
  "fast_traverse N (Block child) values =
     (case child of [] \<Rightarrow> Inl TypeError | c # _ \<Rightarrow> fast_traverse N c values)"
| "fast_traverse N (Unary_operator operator child) values =
     (if operator = ''+'' then fast_traverse N child values
      else if operator = ''-'' then unary N (js_neg N) (fast_traverse N child values)
      else Inr Undefined)"
| "fast_traverse N (Binary_operator operator left right) values =
     (if operator = ''+'' then
        binary N (js_add N) (fast_traverse N left values) (fast_traverse N right values)
      else if operator = ''-'' then
        binary N (js_sub N) (fast_traverse N left values) (fast_traverse N right values)
      else if operator = ''*'' then
        binary N (js_mul N) (fast_traverse N left values) (fast_traverse N right values)
      else if operator = ''/'' then
        binary N (js_div N) (fast_traverse N left values) (fast_traverse N right values)
      else Inr Undefined)"
| "fast_traverse N (Literal v) values = Inr (Num (js_parseInt N v))"
| "fast_traverse N (Variable name) values = Inr (get_property values name)"
| "fast_traverse N (Other_node t) values = Inr Undefined"

subsection \<open>The compiling walk (\<open>traverse\<close> of \<open>evaluate\<close>)\<close>

text \<open>
  The walk stores a closure in the field \<open>fn\<close> of a node, or leaves the field unset
  when no branch matches. Its model returns what it leaves in \<open>node.fn\<close>: \<open>Some\<close>
  closure or \<open>None\<close>. Calling an unset \<open>fn\<close> raises a \<open>TypeError\<close>, at the time
  of the call. Reading \<open>child[0].type\<close> of an empty \<open>child\<close> raises it during the
  walk.
\<close>

type_synonym 'n fn = "'n bindings \<Rightarrow> error + 'n jsval"

definition call :: "'n fn option \<Rightarrow> 'n bindings \<Rightarrow> error + 'n jsval" where
  "call f vars = (case f of None \<Rightarrow> Inl TypeError | Some g \<Rightarrow> g vars)"

fun traverse :: "'n numeric \<Rightarrow> node \<Rightarrow> error + 'n fn option" where
  "traverse N (Block child) =
     (case child of
        [] \<Rightarrow> Inl TypeError
      | c # _ \<Rightarrow>
          (case traverse N c of
             Inl e \<Rightarrow> Inl e
           | Inr child_fn \<Rightarrow> Inr (Some (\<lambda>variables. call child_fn variables))))"
| "traverse N (Unary_operator operator child) =
     (case traverse N child of
        Inl e \<Rightarrow> Inl e
      | Inr child_fn \<Rightarrow>
          if operator = ''+'' then Inr (Some (\<lambda>vars. call child_fn vars))
          else if operator = ''-'' then
            Inr (Some (\<lambda>vars. unary N (js_neg N) (call child_fn vars)))
          else Inr None)"
| "traverse N (Binary_operator operator left right) =
     (case traverse N left of
        Inl e \<Rightarrow> Inl e
      | Inr left_fn \<Rightarrow>
          (case traverse N right of
             Inl e \<Rightarrow> Inl e
           | Inr right_fn \<Rightarrow>
               if operator = ''+'' then
                 Inr (Some (\<lambda>vars. binary N (js_add N) (call left_fn vars) (call right_fn vars)))
               else if operator = ''-'' then
                 Inr (Some (\<lambda>vars. binary N (js_sub N) (call left_fn vars) (call right_fn vars)))
               else if operator = ''*'' then
                 Inr (Some (\<lambda>vars. binary N (js_mul N) (call left_fn vars) (call right_fn vars)))
               else if operator = ''/'' then
                 Inr (Some (\<lambda>vars. binary N (js_div N) (call left_fn vars) (call right_fn vars)))
               else if operator = ''^'' then
                 Inr (Some (\<lambda>vars. binary N (js_pow N) (call left_fn vars) (call right_fn vars)))
               else Inr None))"
| "traverse N (Literal v) = Inr (Some (\<lambda>vars. Inr (Num (js_parseFloat N v))))"
| "traverse N (Variable name) = Inr (Some (\<lambda>vars. Inr (get_property vars name)))"
| "traverse N (Other_node t) = Inr None"

subsection \<open>\<open>evaluate\<close> and \<open>fastEvaluate\<close>\<close>

text \<open>
  The modules \<open>lexer.js\<close>, \<open>syntax_check.js\<close> and \<open>parse.js\<close> are not part of
  the sources at hand: their three functions are parameters. \<open>lexer\<close> returns the
  tokens and the unknowns, \<open>syntax_check\<close> the tokens, \<open>parse\<close> the tree, and each
  may throw.
\<close>

record pipeline =
  lexer :: "string \<Rightarrow> error + token list \<times> string list"
  syntax_check :: "token list \<Rightarrow> error + token list"
  parse :: "token list \<Rightarrow> error + node"

text \<open>
  The three lines both functions share:
  \<open>let [tokens, unknowns] = lexer(expression); tokens = syntax_check(tokens);
  let parse_tree = parse(tokens);\<close>
\<close>

definition front_end :: "pipeline \<Rightarrow> string \<Rightarrow> error + node \<times> string list" where
  "front_end P expression =
     (case lexer P expression of
        Inl e \<Rightarrow> Inl e
      | Inr (tokens, unknowns') \<Rightarrow>
          (case syntax_check P tokens of
             Inl e \<Rightarrow> Inl e
           | Inr tokens' \<Rightarrow>
               (case parse P tokens' of
                  Inl e \<Rightarrow> Inl e
                | Inr parse_tree \<Rightarrow> Inr (parse_tree, unknowns'))))"

text \<open>The object \<open>{calc, unknowns}\<close> that \<open>evaluate\<close> returns.\<close>

record 'n evaluator =
  calc :: "'n bindings \<Rightarrow> error + 'n jsval"
  unknowns :: "string list"

text \<open>
  \<open>evaluate\<close>: the front end, the compiling walk, and the object with the closure
  \<open>calc\<close>, which makes the count test and then runs the presence loop.
\<close>

definition evaluate :: "pipeline \<Rightarrow> 'n numeric \<Rightarrow> string \<Rightarrow> error + 'n evaluator" where
  "evaluate P N expression =
     (case front_end P expression of
        Inl e \<Rightarrow> Inl e
      | Inr (parse_tree, unknowns') \<Rightarrow>
          (case traverse N parse_tree of
             Inl e \<Rightarrow> Inl e
           | Inr evaluate_tree_fn \<Rightarrow>
               Inr \<lparr>calc = (\<lambda>variables.
                       if keys_length variables \<noteq> length unknowns' then
                         Inl (Incorrect_number_of_values (length unknowns') (keys_length variables))
                       else
                         (case missing_value_loop variables unknowns' of
                            Some e \<Rightarrow> Inl e
                          | None \<Rightarrow> call evaluate_tree_fn variables)),
                    unknowns = unknowns'\<rparr>))"

definition fastEvaluate ::
  "pipeline \<Rightarrow> 'n numeric \<Rightarrow> string \<Rightarrow> 'n bindings \<Rightarrow> error + 'n jsval" where
  "fastEvaluate P N expression values =
     (case front_end P expression of
        Inl e \<Rightarrow> Inl e
      | Inr (parse_tree, unknowns') \<Rightarrow>
          if keys_length values \<noteq> length unknowns' then
            Inl (Incorrect_number_of_values (length unknowns') (keys_length values))
          else
            (case missing_value_loop values unknowns' of
               Some e \<Rightarrow> Inl e
             | None \<Rightarrow> fast_traverse N parse_tree values))"

text \<open>
  What \<open>calc\<close> computes once the checks have passed: the compiling walk, then a call
  of the closure it left at the root.
\<close>

definition compiled :: "'n numeric \<Rightarrow> node \<Rightarrow> 'n bindings \<Rightarrow> error + 'n jsval" where
  "compiled N tree variables =
     (case traverse N tree of Inl e \<Rightarrow> Inl e | Inr f \<Rightarrow> call f variables)"

section \<open>The notions the properties speak of\<close>

subsection \<open>Depth and balance of a token sequence\<close>

definition is_open :: "token \<Rightarrow> bool" where
  "is_open t = (ttype t = ''paren_open'')"

definition is_close :: "token \<Rightarrow> bool" where
  "is_close t = (ttype t = ''paren_close'')"

text \<open>The depth of a token sequence: its opening tokens minus its closing tokens.\<close>

definition depth :: "token list \<Rightarrow> int" where
  "depth ts = int (length (filter is_open ts)) - int (length (filter is_close ts))"

text \<open>The running depth after the first \<open>j\<close> tokens.\<close>

definition depth_at :: "token list \<Rightarrow> nat \<Rightarrow> int" where
  "depth_at tokens j = depth (take j tokens)"

text \<open>The running depth is not negative after any of the first \<open>n\<close> tokens.\<close>

definition never_negative :: "token list \<Rightarrow> nat \<Rightarrow> bool" where
  "never_negative tokens n = list_all (\<lambda>j. 0 \<le> depth_at tokens j) [0..<Suc n]"

text \<open>
  Token \<open>i\<close> is an excess closing parenthesis: a closing token met at running depth
  zero, the running depth not having been negative before it.
\<close>

definition excess_close :: "token list \<Rightarrow> nat \<Rightarrow> bool" where
  "excess_close tokens i =
     (i < length tokens \<and> is_close (tokens ! i) \<and> depth_at tokens i = 0 \<and>
      never_negative tokens i)"

definition balanced :: "token list \<Rightarrow> bool" where
  "balanced tokens = (never_negative tokens (length tokens) \<and> depth tokens = 0)"

subsection \<open>Matching by a stack\<close>

text \<open>
  The tie-break rule of the specification, ``a closing token always matches the
  innermost (most recently opened, still-open) one'', as the stack algorithm: an
  opening token pushes its index; a closing token pops the top of the stack and is
  matched with it. The state is the stack and the pairs (opening index, closing index)
  matched so far. This definition follows the words of the specification and not the
  source; the resolver is compared with it.
\<close>

type_synonym lifo_state = "nat list \<times> (nat \<times> nat) list"

fun lifo_step :: "lifo_state \<Rightarrow> nat \<times> token \<Rightarrow> lifo_state" where
  "lifo_step (stack, pairs) (j, t) =
     (if is_open t then (j # stack, pairs)
      else if is_close t then
        (case stack of [] \<Rightarrow> (stack, pairs) | s # rest \<Rightarrow> (rest, (s, j) # pairs))
      else (stack, pairs))"

definition lifo_run :: "token list \<Rightarrow> nat \<Rightarrow> lifo_state" where
  "lifo_run tokens n = foldl lifo_step ([], []) (take n (enumerate 0 tokens))"

text \<open>The index of the closing token matched with the opening token at \<open>s\<close>.\<close>

definition matching_close :: "token list \<Rightarrow> nat \<Rightarrow> nat option" where
  "matching_close tokens s = map_of (snd (lifo_run tokens (length tokens))) s"

subsection \<open>Nesting of blocks\<close>

text \<open>A block covers the tokens from \<open>start\<close> up to, not including, \<open>end\<close>.\<close>

definition disjoint_blocks :: "paren \<Rightarrow> paren \<Rightarrow> bool" where
  "disjoint_blocks p q =
     ((case end' p of None \<Rightarrow> False | Some e \<Rightarrow> e \<le> start q) \<or>
      (case end' q of None \<Rightarrow> False | Some e \<Rightarrow> e \<le> start p))"

definition strictly_contains :: "paren \<Rightarrow> paren \<Rightarrow> bool" where
  "strictly_contains p q =
     (case (end' p, end' q) of
        (Some e, Some e') \<Rightarrow> start p < start q \<and> e' < e
      | _ \<Rightarrow> False)"

definition properly_nested :: "paren list \<Rightarrow> bool" where
  "properly_nested ps =
     (\<forall>k<length ps. \<forall>l<length ps. k \<noteq> l \<longrightarrow>
        disjoint_blocks (ps ! k) (ps ! l) \<or>
        strictly_contains (ps ! k) (ps ! l) \<or>
        strictly_contains (ps ! l) (ps ! k))"


subsection \<open>The invariant of the resolver's loop\<close>

definition unclosed :: "paren \<Rightarrow> bool" where
  "unclosed p = (end' p = None)"

definition nest :: "paren \<Rightarrow> paren \<Rightarrow> bool" where
  "nest p q = (\<forall>e. end' p = Some e \<longrightarrow> e \<le> start q \<or> (\<exists>e'. end' q = Some e' \<and> e' < e))"

text \<open>
  How a block lies in the running depth, after \<open>i\<close> tokens: the depth has stayed at
  or above the level of a block since its opening token, up to \<open>i\<close> for an unclosed
  block and up to its closing token for a closed one, where it falls below the level.
\<close>

definition depth_profile :: "token list \<Rightarrow> nat \<Rightarrow> paren \<Rightarrow> bool" where
  "depth_profile tokens i p =
     (case end' p of
        None \<Rightarrow> \<forall>j. start p < j \<and> j \<le> i \<longrightarrow> level p \<le> depth_at tokens j
      | Some e \<Rightarrow> depth_at tokens e = level p - 1 \<and>
                  (\<forall>j. start p < j \<and> j < e \<longrightarrow> level p \<le> depth_at tokens j))"

text \<open>Block \<open>q\<close> is not closed before position \<open>s\<close>.\<close>

definition still_open_at :: "nat \<Rightarrow> paren \<Rightarrow> bool" where
  "still_open_at s q = (case end' q of None \<Rightarrow> True | Some e \<Rightarrow> s < e)"

text \<open>
  The level of the block at index \<open>k\<close> counts the earlier blocks that are not closed
  before its opening token, and the block itself.
\<close>

definition level_counts :: "paren list \<Rightarrow> nat \<Rightarrow> bool" where
  "level_counts ps k =
     (level (ps ! k) = 1 + int (length (filter (still_open_at (start (ps ! k))) (take k ps))))"

text \<open>
  The state \<open>parens\<close>, \<open>level\<close> after \<open>i\<close> tokens, none of which threw.
\<close>

definition resolver_inv :: "token list \<Rightarrow> nat \<Rightarrow> paren list \<Rightarrow> int \<Rightarrow> bool" where
  "resolver_inv tokens i ps lv \<longleftrightarrow>
     lv = depth_at tokens i \<and> 0 \<le> lv \<and>
     map start ps = filter (\<lambda>j. is_open (tokens ! j)) [0..<i] \<and>
     (\<forall>p\<in>set ps. \<forall>e. end' p = Some e \<longrightarrow>
        start p + 2 \<le> e \<and> e \<le> i \<and> is_close (tokens ! (e - 1))) \<and>
     map level (filter unclosed ps) = [1..lv] \<and>
     sorted_wrt nest ps \<and>
     (\<forall>p\<in>set ps. level p = depth_at tokens (Suc (start p))) \<and>
     fst (lifo_run tokens i) = rev (map start (filter unclosed ps)) \<and>
     (\<forall>p\<in>set ps. end' p = map_option Suc (map_of (snd (lifo_run tokens i)) (start p))) \<and>
     (\<forall>s\<in>fst ` set (snd (lifo_run tokens i)). s < i) \<and>
     (\<forall>p\<in>set ps. depth_profile tokens i p) \<and>
     (\<forall>k<length ps. level_counts ps k)"

subsection \<open>Keys of the bindings\<close>

text \<open>The name \<open>v\<close> is a key of the bindings.\<close>

definition own_key :: "'n bindings \<Rightarrow> string \<Rightarrow> bool" where
  "own_key b v = (v |\<in>| fmdom b)"

subsection \<open>Well-formed trees and their value\<close>

text \<open>
  The trees of the data model of the specification: a block has a child, a unary
  operator is \<open>+\<close> or \<open>-\<close>, a binary operator is one of \<open>+ - * / ^\<close>.
\<close>

fun well_formed :: "node \<Rightarrow> bool" where
  "well_formed (Block child) = (case child of [] \<Rightarrow> False | c # _ \<Rightarrow> well_formed c)"
| "well_formed (Unary_operator operator child) =
     ((operator = ''+'' \<or> operator = ''-'') \<and> well_formed child)"
| "well_formed (Binary_operator operator left right) =
     ((operator = ''+'' \<or> operator = ''-'' \<or> operator = ''*'' \<or> operator = ''/'' \<or>
       operator = ''^'') \<and> well_formed left \<and> well_formed right)"
| "well_formed (Literal v) = True"
| "well_formed (Variable name) = True"
| "well_formed (Other_node t) = False"

fun variables_of :: "node \<Rightarrow> string list" where
  "variables_of (Block child) = (case child of [] \<Rightarrow> [] | c # _ \<Rightarrow> variables_of c)"
| "variables_of (Unary_operator operator child) = variables_of child"
| "variables_of (Binary_operator operator left right) = variables_of left @ variables_of right"
| "variables_of (Literal v) = []"
| "variables_of (Variable name) = [name]"
| "variables_of (Other_node t) = []"

fun literals_of :: "node \<Rightarrow> string list" where
  "literals_of (Block child) = (case child of [] \<Rightarrow> [] | c # _ \<Rightarrow> literals_of c)"
| "literals_of (Unary_operator operator child) = literals_of child"
| "literals_of (Binary_operator operator left right) = literals_of left @ literals_of right"
| "literals_of (Literal v) = [v]"
| "literals_of (Variable name) = []"
| "literals_of (Other_node t) = []"

fun pow_free :: "node \<Rightarrow> bool" where
  "pow_free (Block child) = (case child of [] \<Rightarrow> True | c # _ \<Rightarrow> pow_free c)"
| "pow_free (Unary_operator operator child) = pow_free child"
| "pow_free (Binary_operator operator left right) =
     (operator \<noteq> ''^'' \<and> pow_free left \<and> pow_free right)"
| "pow_free (Literal v) = True"
| "pow_free (Variable name) = True"
| "pow_free (Other_node t) = True"

text \<open>
  The numeric result of evaluating a tree, in the words of the specification (4.5):
  ``literal nodes return their parsed numeric value; variable nodes look up their name
  in the mapping; unary/binary nodes compose their children's functions with the
  corresponding arithmetic operator (\<open>^\<close> via exponentiation); block nodes delegate
  to their single child''. It is meant for well-formed trees whose variables are bound;
  elsewhere it is \<open>NaN\<close>. This definition follows the specification and not the
  source; \<open>calc\<close> is compared with it.
\<close>

fun spec_value :: "'n numeric \<Rightarrow> node \<Rightarrow> 'n bindings \<Rightarrow> 'n" where
  "spec_value N (Block child) b = (case child of [] \<Rightarrow> js_nan N | c # _ \<Rightarrow> spec_value N c b)"
| "spec_value N (Unary_operator operator child) b =
     (if operator = ''-'' then js_neg N (spec_value N child b) else spec_value N child b)"
| "spec_value N (Binary_operator operator left right) b =
     (if operator = ''+'' then js_add N (spec_value N left b) (spec_value N right b)
      else if operator = ''-'' then js_sub N (spec_value N left b) (spec_value N right b)
      else if operator = ''*'' then js_mul N (spec_value N left b) (spec_value N right b)
      else if operator = ''/'' then js_div N (spec_value N left b) (spec_value N right b)
      else js_pow N (spec_value N left b) (spec_value N right b))"
| "spec_value N (Literal v) b = js_parseFloat N v"
| "spec_value N (Variable name) b = (case fmlookup b name of None \<Rightarrow> js_nan N | Some x \<Rightarrow> x)"
| "spec_value N (Other_node t) b = js_nan N"

subsection \<open>Numbers for the examples\<close>

text \<open>
  The theorems on the evaluators hold for every \<open>'n numeric\<close>. To evaluate
  examples, the numbers below are the reals with the two infinities and \<open>NaN\<close>,
  with the operators as the language standard (ECMA-262) defines them on exact values.
  Rounding to a double, overflow and the sign of zero are left out, and the examples
  do not depend on them. None of this is code of the repository.
\<close>

datatype jsnum = Fin real | PosInfinity | NegInfinity | NaN

fun num_neg :: "jsnum \<Rightarrow> jsnum" where
  "num_neg (Fin x) = Fin (- x)"
| "num_neg PosInfinity = NegInfinity"
| "num_neg NegInfinity = PosInfinity"
| "num_neg NaN = NaN"

fun num_add :: "jsnum \<Rightarrow> jsnum \<Rightarrow> jsnum" where
  "num_add (Fin x) (Fin y) = Fin (x + y)"
| "num_add NaN b = NaN"
| "num_add a NaN = NaN"
| "num_add PosInfinity NegInfinity = NaN"
| "num_add NegInfinity PosInfinity = NaN"
| "num_add (Fin x) b = b"
| "num_add a b = a"

definition num_sub :: "jsnum \<Rightarrow> jsnum \<Rightarrow> jsnum" where
  "num_sub a b = num_add a (num_neg b)"

text \<open>The infinity of the sign of \<open>s\<close>, and the sign of a number (zero is positive).\<close>

definition infinity_of :: "real \<Rightarrow> jsnum" where
  "infinity_of s = (if s < 0 then NegInfinity else PosInfinity)"

fun sign_of :: "jsnum \<Rightarrow> real" where
  "sign_of (Fin x) = (if x < 0 then - 1 else 1)"
| "sign_of NegInfinity = - 1"
| "sign_of b = 1"

fun num_mul :: "jsnum \<Rightarrow> jsnum \<Rightarrow> jsnum" where
  "num_mul (Fin x) (Fin y) = Fin (x * y)"
| "num_mul NaN b = NaN"
| "num_mul a NaN = NaN"
| "num_mul a b = (if a = Fin 0 \<or> b = Fin 0 then NaN else infinity_of (sign_of a * sign_of b))"

fun num_div :: "jsnum \<Rightarrow> jsnum \<Rightarrow> jsnum" where
  "num_div (Fin x) (Fin y) =
     (if y = 0 then (if x = 0 then NaN else infinity_of x) else Fin (x / y))"
| "num_div NaN b = NaN"
| "num_div a NaN = NaN"
| "num_div (Fin x) b = Fin 0"
| "num_div a (Fin y) = infinity_of (sign_of a * sign_of (Fin y))"
| "num_div a b = NaN"

definition is_integer :: "real \<Rightarrow> bool" where
  "is_integer y = (y = of_int \<lfloor>y\<rfloor>)"

definition int_power :: "real \<Rightarrow> int \<Rightarrow> real" where
  "int_power x k = (if 0 \<le> k then x ^ nat k else 1 / x ^ nat (- k))"

fun num_pow :: "jsnum \<Rightarrow> jsnum \<Rightarrow> jsnum" where
  "num_pow b NaN = NaN"
| "num_pow b (Fin y) =
     (if y = 0 then Fin 1
      else (case b of
              NaN \<Rightarrow> NaN
            | PosInfinity \<Rightarrow> if 0 < y then PosInfinity else Fin 0
            | NegInfinity \<Rightarrow>
                if 0 < y then (if is_integer y \<and> odd \<lfloor>y\<rfloor> then NegInfinity else PosInfinity)
                else Fin 0
            | Fin x \<Rightarrow>
                if x = 0 then (if 0 < y then Fin 0 else PosInfinity)
                else if is_integer y then Fin (int_power x \<lfloor>y\<rfloor>)
                else if x < 0 then NaN
                else Fin (x powr y)))"
| "num_pow b PosInfinity =
     (case b of
        NaN \<Rightarrow> NaN
      | Fin x \<Rightarrow> if 1 < \<bar>x\<bar> then PosInfinity else if \<bar>x\<bar> = 1 then NaN else Fin 0
      | _ \<Rightarrow> PosInfinity)"
| "num_pow b NegInfinity =
     (case b of
        NaN \<Rightarrow> NaN
      | Fin x \<Rightarrow> if 1 < \<bar>x\<bar> then Fin 0 else if \<bar>x\<bar> = 1 then NaN else PosInfinity
      | _ \<Rightarrow> Fin 0)"

text \<open>
  \<open>parseInt(s, 10)\<close>: leading white space is skipped, a sign is read, and the
  longest run of decimal digits is the value; \<open>NaN\<close> when there is no digit.
\<close>

definition is_space :: "char \<Rightarrow> bool" where
  "is_space c = (c \<in> set [CHR '' '', CHR 0x09, CHR 0x0A, CHR 0x0B, CHR 0x0C, CHR 0x0D])"

definition is_digit :: "char \<Rightarrow> bool" where
  "is_digit c = (c \<in> set ''0123456789'')"

definition digit_value :: "char \<Rightarrow> nat" where
  "digit_value c = of_char c - 48"

definition digits_value :: "string \<Rightarrow> nat" where
  "digits_value ds = foldl (\<lambda>a c. 10 * a + digit_value c) 0 ds"

definition strip_sign :: "string \<Rightarrow> real \<times> string" where
  "strip_sign s =
     (case s of
        [] \<Rightarrow> (1, [])
      | c # r \<Rightarrow> if c = CHR ''-'' then (- 1, r) else if c = CHR ''+'' then (1, r) else (1, s))"

definition num_parseInt :: "string \<Rightarrow> jsnum" where
  "num_parseInt s =
     (let (sg, r) = strip_sign (dropWhile is_space s);
          z = takeWhile is_digit r
      in if z = [] then NaN else Fin (sg * real (digits_value z)))"

text \<open>
  \<open>parseFloat(s)\<close>: leading white space is skipped, and the longest prefix that is a
  decimal literal is the value: a sign, then \<open>Infinity\<close>, or digits with an optional
  fraction and an optional exponent; \<open>NaN\<close> when there is no such prefix.
\<close>

definition exponent_factor :: "string \<Rightarrow> real" where
  "exponent_factor s =
     (case s of
        [] \<Rightarrow> 1
      | c # t \<Rightarrow>
          if c = CHR ''e'' \<or> c = CHR ''E'' then
            (let (sg, r) = strip_sign t;
                 ds = takeWhile is_digit r
             in if ds = [] then 1
                else if sg < 0 then 1 / 10 ^ digits_value ds
                else 10 ^ digits_value ds)
          else 1)"

definition num_parseFloat :: "string \<Rightarrow> jsnum" where
  "num_parseFloat s =
     (let (sg, r) = strip_sign (dropWhile is_space s)
      in if take 8 r = ''Infinity'' then infinity_of sg
         else
           (let ip = takeWhile is_digit r;
                r1 = dropWhile is_digit r;
                dot = (r1 \<noteq> [] \<and> hd r1 = CHR ''.'');
                fp = (if dot then takeWhile is_digit (tl r1) else []);
                r2 = (if dot then dropWhile is_digit (tl r1) else r1)
            in if ip = [] \<and> fp = [] then NaN
               else Fin (sg * (real (digits_value ip) + real (digits_value fp) / 10 ^ length fp)
                          * exponent_factor r2)))"

definition js_numbers :: "jsnum numeric" where
  "js_numbers =
     \<lparr>js_add = num_add, js_sub = num_sub, js_mul = num_mul, js_div = num_div,
      js_pow = num_pow, js_neg = num_neg, js_nan = NaN,
      js_parseFloat = num_parseFloat, js_parseInt = num_parseInt\<rparr>"

subsection \<open>Inputs for the examples\<close>

text \<open>
  A front end that yields a given tree and a given list of unknowns. In the examples
  it stands for the three absent modules on an expression that they parse so.
\<close>

definition fixed_front_end :: "node \<Rightarrow> string list \<Rightarrow> pipeline" where
  "fixed_front_end tree us =
     \<lparr>lexer = (\<lambda>expression. Inr ([], us)), syntax_check = Inr, parse = (\<lambda>tokens. Inr tree)\<rparr>"

text \<open>A token of a given type.\<close>

definition tok :: "string \<Rightarrow> token" where
  "tok ty = \<lparr>ttype = ty\<rparr>"

section \<open>Properties of the resolver\<close>

subsection \<open>The running depth\<close>

lemma depth_at_0 [simp]: "depth_at tokens 0 = 0"
  by (simp add: depth_at_def depth_def)

lemma depth_at_Suc:
  assumes "i < length tokens"
  shows "depth_at tokens (Suc i) =
           depth_at tokens i +
             (if is_open (tokens ! i) then 1 else if is_close (tokens ! i) then - 1 else 0)"
  using assms
  by (auto simp: depth_at_def depth_def take_Suc_conv_app_nth is_open_def is_close_def)

lemma depth_at_length [simp]: "depth_at tokens (length tokens) = depth tokens"
  by (simp add: depth_at_def)

lemma never_negative_iff: "never_negative tokens n \<longleftrightarrow> (\<forall>j\<le>n. 0 \<le> depth_at tokens j)"
  by (auto simp: never_negative_def list_all_iff less_Suc_eq_le)

lemma open_not_close: "is_open t \<Longrightarrow> \<not> is_close t"
  by (simp add: is_open_def is_close_def)

subsection \<open>The loop stops at the first excess closing token\<close>

lemma loop_error:
  assumes "excess_close tokens k"
  shows "i \<le> k \<Longrightarrow> lv = depth_at tokens i \<Longrightarrow>
         parentheses_loop tokens i parens lv = Inl (Bad_parentheses_syntax k)"
proof (induction "k - i" arbitrary: i parens lv)
  case 0
  then have ik: "i = k" by simp
  from assms have k: "k < length tokens" "is_close (tokens ! k)" "depth_at tokens k = 0"
    by (auto simp: excess_close_def)
  from k(2) have "ttype (tokens ! k) \<noteq> ''paren_open''" by (simp add: is_close_def)
  with k 0 ik show ?case
    by (subst parentheses_loop.simps) (simp add: is_close_def)
next
  case (Suc n)
  then have ik: "i < k" by simp
  from assms have k: "k < length tokens" and nn: "\<forall>j\<le>k. 0 \<le> depth_at tokens j"
    by (auto simp: excess_close_def never_negative_iff)
  from ik k have il: "i < length tokens" by simp
  from nn ik have d: "0 \<le> depth_at tokens (Suc i)" by simp
  have step: "parentheses_loop tokens (Suc i) ps (depth_at tokens (Suc i)) =
                Inl (Bad_parentheses_syntax k)" for ps
    using Suc(1)[of "Suc i" "depth_at tokens (Suc i)" ps] Suc(2) ik by simp
  show ?case
    using il d step Suc(4)
    by (subst parentheses_loop.simps) (auto simp: depth_at_Suc is_open_def is_close_def)
qed

lemma excess_close_less:
  assumes "excess_close tokens i" "excess_close tokens i'"
  shows "\<not> i < i'"
proof
  assume l: "i < i'"
  from assms(1) have i: "i < length tokens" "is_close (tokens ! i)" "depth_at tokens i = 0"
    by (simp_all add: excess_close_def)
  from i(2) have "\<not> is_open (tokens ! i)" by (auto dest: open_not_close)
  with i have "depth_at tokens (Suc i) = - 1" by (simp add: depth_at_Suc)
  moreover from assms(2) l have "0 \<le> depth_at tokens (Suc i)"
    by (simp add: excess_close_def never_negative_iff)
  ultimately show False by simp
qed

lemma excess_close_unique:
  assumes "excess_close tokens i" "excess_close tokens i'"
  shows "i' = i"
  using excess_close_less[OF assms] excess_close_less[OF assms(2,1)] by simp

subsection \<open>The inner loop closes the last unclosed block\<close>

lemma close_last_split:
  assumes "falsy (end' x)" "\<forall>z\<in>set zs. \<not> falsy (end' z)" "k \<le> length zs"
  shows "close_last (ys @ x # zs) (Suc (length ys) + k) e = ys @ x\<lparr>end' := Some e\<rparr> # zs"
  using assms
proof (induction k)
  case 0
  then show ?case by (simp add: nth_append list_update_append)
next
  case (Suc k)
  then have "\<not> falsy (end' (zs ! k))" by simp
  with Suc show ?case by (simp add: nth_append)
qed

lemma filter_length_cong:
  assumes "length xs = length ys" "\<forall>j<length xs. P (xs ! j) = P (ys ! j)"
  shows "length (filter P xs) = length (filter P ys)"
  using assms
proof (induction xs ys rule: list_induct2)
  case Nil
  then show ?case by simp
next
  case (Cons x xs y ys)
  from Cons(3) have "P x = P y" by auto
  moreover from Cons(3) have "\<forall>j<length xs. P (xs ! j) = P (ys ! j)" by auto
  ultimately show ?case using Cons(2) by simp
qed

lemma upto_last: "1 \<le> lv \<Longrightarrow> [1..lv] = [1..lv - 1] @ [lv]"
  by (simp add: upto_rec2)

lemma unclosed_level_le:
  assumes "map level (filter unclosed ps) = [1..lv]" "p \<in> set ps" "unclosed p"
  shows "level p \<le> lv"
proof -
  from assms(2,3) have "level p \<in> set (map level (filter unclosed ps))" by simp
  with assms(1) show ?thesis by simp
qed

lemma close_last_decomp:
  assumes lv: "1 \<le> lv"
    and lev: "map level (filter unclosed ps) = [1..lv]"
    and nz: "\<forall>p\<in>set ps. \<forall>e. end' p = Some e \<longrightarrow> 0 < e"
  shows "\<exists>as pm bs. ps = as @ pm # bs \<and> unclosed pm \<and> (\<forall>b\<in>set bs. \<not> unclosed b) \<and>
           level pm = lv \<and> map level (filter unclosed as) = [1..lv - 1] \<and>
           close_last ps (length ps) e = as @ pm\<lparr>end' := Some e\<rparr> # bs"
proof -
  from lv lev have "filter unclosed ps \<noteq> []"
    by (auto simp: upto_last)
  then have "\<exists>p\<in>set ps. unclosed p"
    by (simp add: filter_empty_conv)
  then obtain as pm bs where d: "ps = as @ pm # bs" "unclosed pm" "\<forall>b\<in>set bs. \<not> unclosed b"
    using split_list_last_prop[of ps unclosed] by blast
  have f: "falsy (end' pm)" using d(2) by (simp add: unclosed_def falsy_def)
  have nf: "\<forall>b\<in>set bs. \<not> falsy (end' b)"
    using d nz by (auto simp: unclosed_def falsy_def split: option.splits)
  have "close_last (as @ pm # bs) (Suc (length as) + length bs) e =
          as @ pm\<lparr>end' := Some e\<rparr> # bs"
    by (rule close_last_split[OF f nf]) simp
  then have cl: "close_last ps (length ps) e = as @ pm\<lparr>end' := Some e\<rparr> # bs"
    using d(1) by simp
  have "filter unclosed ps = filter unclosed as @ [pm]"
    using d by simp
  with lev lv have "map level (filter unclosed as) @ [level pm] = [1..lv - 1] @ [lv]"
    by (simp add: upto_last)
  then have "level pm = lv" "map level (filter unclosed as) = [1..lv - 1]"
    by simp_all
  with d cl show ?thesis by blast
qed

subsection \<open>The stack algorithm, step by step\<close>

lemma lifo_run_0 [simp]: "lifo_run tokens 0 = ([], [])"
  by (simp add: lifo_run_def)

lemma lifo_run_Suc:
  "i < length tokens \<Longrightarrow> lifo_run tokens (Suc i) = lifo_step (lifo_run tokens i) (i, tokens ! i)"
  by (simp add: lifo_run_def take_Suc_conv_app_nth nth_enumerate_eq)

subsection \<open>The invariant holds at the start and is kept by every step\<close>

lemma inv_init: "resolver_inv tokens 0 [] 0"
  by (simp add: resolver_inv_def)

lemma depth_profile_other:
  assumes "depth_profile tokens i p" "unclosed p \<longrightarrow> level p \<le> depth_at tokens (Suc i)"
  shows "depth_profile tokens (Suc i) p"
  using assms
  by (cases "end' p") (auto simp: depth_profile_def unclosed_def le_Suc_eq)

lemma inv_other:
  assumes I: "resolver_inv tokens i ps lv" and il: "i < length tokens"
    and no: "\<not> is_open (tokens ! i)" and nc: "\<not> is_close (tokens ! i)"
  shows "resolver_inv tokens (Suc i) ps lv"
proof -
  have run: "lifo_run tokens (Suc i) = lifo_run tokens i"
    using il no nc by (cases "lifo_run tokens i") (simp add: lifo_run_Suc)
  from I have lv: "lv = depth_at tokens i"
    and le: "map level (filter unclosed ps) = [1..lv]"
    and pr: "\<forall>p\<in>set ps. depth_profile tokens i p"
    by (simp_all add: resolver_inv_def)
  have d: "depth_at tokens (Suc i) = lv" using il no nc lv by (simp add: depth_at_Suc)
  have c11: "\<forall>p\<in>set ps. depth_profile tokens (Suc i) p"
  proof
    fix p assume p: "p \<in> set ps"
    show "depth_profile tokens (Suc i) p"
    proof (rule depth_profile_other)
      show "depth_profile tokens i p" using pr p by blast
      show "unclosed p \<longrightarrow> level p \<le> depth_at tokens (Suc i)"
        using unclosed_level_le[OF le p] d by simp
    qed
  qed
  have rest: "lv = depth_at tokens (Suc i) \<and> 0 \<le> lv \<and>
     map start ps = filter (\<lambda>j. is_open (tokens ! j)) [0..<Suc i] \<and>
     (\<forall>p\<in>set ps. \<forall>e. end' p = Some e \<longrightarrow>
        start p + 2 \<le> e \<and> e \<le> Suc i \<and> is_close (tokens ! (e - 1))) \<and>
     map level (filter unclosed ps) = [1..lv] \<and>
     sorted_wrt nest ps \<and>
     (\<forall>p\<in>set ps. level p = depth_at tokens (Suc (start p))) \<and>
     fst (lifo_run tokens i) = rev (map start (filter unclosed ps)) \<and>
     (\<forall>p\<in>set ps. end' p = map_option Suc (map_of (snd (lifo_run tokens i)) (start p))) \<and>
     (\<forall>s\<in>fst ` set (snd (lifo_run tokens i)). s < Suc i)"
    using I il no nc unfolding resolver_inv_def
    by (auto simp: depth_at_Suc less_Suc_eq)
  from I have c12: "\<forall>k<length ps. level_counts ps k" by (simp add: resolver_inv_def)
  from rest c11 c12 show ?thesis unfolding resolver_inv_def run by blast
qed

lemma inv_open:
  assumes I: "resolver_inv tokens i ps lv" and il: "i < length tokens"
    and op: "is_open (tokens ! i)"
  shows "resolver_inv tokens (Suc i) (ps @ [\<lparr>start = i, end' = None, level = lv + 1\<rparr>]) (lv + 1)"
proof -
  let ?new = "\<lparr>start = i, end' = None, level = lv + 1\<rparr>"
  obtain stack pairs where sp: "lifo_run tokens i = (stack, pairs)"
    by (cases "lifo_run tokens i")
  have run: "lifo_run tokens (Suc i) = (i # stack, pairs)"
    using il op sp by (simp add: lifo_run_Suc)
  from I have lv: "lv = depth_at tokens i" "0 \<le> lv"
    and le: "map level (filter unclosed ps) = [1..lv]"
    and pr: "\<forall>p\<in>set ps. depth_profile tokens i p"
    by (simp_all add: resolver_inv_def)
  have fresh: "map_of pairs i = None"
    using I sp by (auto simp: resolver_inv_def map_of_eq_None_iff)
  have upto: "[1..lv + 1] = [1..lv] @ [lv + 1]"
    using lv(2) by (simp add: upto_rec2)
  have c1: "lv + 1 = depth_at tokens (Suc i)"
    using il op lv by (simp add: depth_at_Suc)
  have c2: "0 \<le> lv + 1" using lv(2) by simp
  have c3: "map start (ps @ [?new]) = filter (\<lambda>j. is_open (tokens ! j)) [0..<Suc i]"
    using I op by (simp add: resolver_inv_def)
  have c4: "\<forall>p\<in>set (ps @ [?new]). \<forall>e. end' p = Some e \<longrightarrow>
        start p + 2 \<le> e \<and> e \<le> Suc i \<and> is_close (tokens ! (e - 1))"
    using I by (auto simp: resolver_inv_def)
  have c5: "map level (filter unclosed (ps @ [?new])) = [1..lv + 1]"
    using le upto by (simp add: unclosed_def)
  have c6: "sorted_wrt nest (ps @ [?new])"
    using I by (auto simp: resolver_inv_def sorted_wrt_append nest_def)
  have c7: "\<forall>p\<in>set (ps @ [?new]). level p = depth_at tokens (Suc (start p))"
    using I c1 by (auto simp: resolver_inv_def)
  have c8: "fst (lifo_run tokens (Suc i)) = rev (map start (filter unclosed (ps @ [?new])))"
    using I sp run by (simp add: resolver_inv_def unclosed_def)
  have c9: "\<forall>p\<in>set (ps @ [?new]).
              end' p = map_option Suc (map_of (snd (lifo_run tokens (Suc i))) (start p))"
    using I sp run fresh by (auto simp: resolver_inv_def)
  have c10: "\<forall>s\<in>fst ` set (snd (lifo_run tokens (Suc i))). s < Suc i"
    using I sp run by (auto simp: resolver_inv_def less_Suc_eq)
  have c11: "\<forall>p\<in>set (ps @ [?new]). depth_profile tokens (Suc i) p"
  proof
    fix p assume p: "p \<in> set (ps @ [?new])"
    show "depth_profile tokens (Suc i) p"
    proof (cases "p = ?new")
      case True
      then show ?thesis using c1 by (auto simp: depth_profile_def le_Suc_eq)
    next
      case False
      with p have pin: "p \<in> set ps" by simp
      show ?thesis
      proof (rule depth_profile_other)
        show "depth_profile tokens i p" using pr pin by blast
        show "unclosed p \<longrightarrow> level p \<le> depth_at tokens (Suc i)"
          using unclosed_level_le[OF le pin] c1 by auto
      qed
    qed
  qed
  have c12: "\<forall>k<length (ps @ [?new]). level_counts (ps @ [?new]) k"
  proof (intro allI impI)
    fix k assume k: "k < length (ps @ [?new])"
    show "level_counts (ps @ [?new]) k"
    proof (cases "k < length ps")
      case True
      with I have "level_counts ps k" by (simp add: resolver_inv_def)
      with True show ?thesis by (simp add: level_counts_def nth_append)
    next
      case False
      with k have kl: "k = length ps" by simp
      have "still_open_at i q = unclosed q" if "q \<in> set ps" for q
        using I that by (cases "end' q") (auto simp: resolver_inv_def still_open_at_def unclosed_def)
      then have "filter (still_open_at i) ps = filter unclosed ps"
        by (simp cong: filter_cong)
      then have "length (filter (still_open_at i) ps) = length [1..lv]"
        using le by (metis length_map)
      with lv(2) kl show ?thesis by (simp add: level_counts_def)
    qed
  qed
  show ?thesis
    unfolding resolver_inv_def
    by (intro conjI) (rule c1 c2 c3 c4 c5 c6 c7 c8 c9 c10 c11 c12)+
qed

lemma inv_close:
  assumes I: "resolver_inv tokens i ps lv" and il: "i < length tokens"
    and cl: "is_close (tokens ! i)" and no: "\<not> is_open (tokens ! i)" and lv1: "1 \<le> lv"
  shows "resolver_inv tokens (Suc i) (close_last ps (length ps) (Suc i)) (lv - 1)"
proof -
  from I have lv: "lv = depth_at tokens i"
    and st: "map start ps = filter (\<lambda>j. is_open (tokens ! j)) [0..<i]"
    and en: "\<forall>p\<in>set ps. \<forall>e. end' p = Some e \<longrightarrow>
               start p + 2 \<le> e \<and> e \<le> i \<and> is_close (tokens ! (e - 1))"
    and le: "map level (filter unclosed ps) = [1..lv]"
    and ne: "sorted_wrt nest ps"
    and de: "\<forall>p\<in>set ps. level p = depth_at tokens (Suc (start p))"
    and sk: "fst (lifo_run tokens i) = rev (map start (filter unclosed ps))"
    and pa: "\<forall>p\<in>set ps. end' p = map_option Suc (map_of (snd (lifo_run tokens i)) (start p))"
    and ke: "\<forall>s\<in>fst ` set (snd (lifo_run tokens i)). s < i"
    and pr: "\<forall>p\<in>set ps. depth_profile tokens i p"
    by (simp_all add: resolver_inv_def)
  have nz: "\<forall>p\<in>set ps. \<forall>e. end' p = Some e \<longrightarrow> 0 < e"
    using en by fastforce
  obtain as pm bs where d: "ps = as @ pm # bs" "unclosed pm" "\<forall>b\<in>set bs. \<not> unclosed b"
      "level pm = lv" "map level (filter unclosed as) = [1..lv - 1]"
      and res: "close_last ps (length ps) (Suc i) = as @ pm\<lparr>end' := Some (Suc i)\<rparr> # bs"
    using close_last_decomp[OF lv1 le nz, of "Suc i"] by blast
  let ?pm' = "pm\<lparr>end' := Some (Suc i)\<rparr>"
  let ?ps' = "as @ ?pm' # bs"
  have starts: "map start ?ps' = map start ps" using d(1) by simp
  have dist: "distinct (map start ps)" unfolding st by simp
  have pm_lt: "start pm < i"
  proof -
    have "start pm \<in> set (map start ps)" using d(1) by simp
    then show ?thesis unfolding st by simp
  qed
  obtain stack pairs where sp: "lifo_run tokens i = (stack, pairs)"
    by (cases "lifo_run tokens i")
  have stack: "stack = start pm # rev (map start (filter unclosed as))"
    using sk sp d by simp
  have run: "lifo_run tokens (Suc i) =
               (rev (map start (filter unclosed as)), (start pm, i) # pairs)"
    using il cl no sp stack by (simp add: lifo_run_Suc)
  have c1: "lv - 1 = depth_at tokens (Suc i)"
    using il cl no lv by (simp add: depth_at_Suc)
  have c2: "0 \<le> lv - 1" using lv1 by simp
  have c3: "map start ?ps' = filter (\<lambda>j. is_open (tokens ! j)) [0..<Suc i]"
    using starts st no by simp
  have c4: "\<forall>p\<in>set ?ps'. \<forall>e. end' p = Some e \<longrightarrow>
        start p + 2 \<le> e \<and> e \<le> Suc i \<and> is_close (tokens ! (e - 1))"
  proof (intro ballI allI impI)
    fix p e assume p: "p \<in> set ?ps'" and e: "end' p = Some e"
    show "start p + 2 \<le> e \<and> e \<le> Suc i \<and> is_close (tokens ! (e - 1))"
    proof (cases "p = ?pm'")
      case True
      with e pm_lt cl show ?thesis by auto
    next
      case False
      with p d(1) have "p \<in> set ps" by auto
      with en e have "start p + 2 \<le> e \<and> e \<le> i \<and> is_close (tokens ! (e - 1))" by blast
      then show ?thesis by simp
    qed
  qed
  have c5: "map level (filter unclosed ?ps') = [1..lv - 1]"
    using d by (simp add: unclosed_def)
  have c6: "sorted_wrt nest ?ps'"
  proof -
    from ne d(1) have s: "sorted_wrt nest as" "sorted_wrt nest bs"
      "\<forall>a\<in>set as. nest a pm" "\<forall>a\<in>set as. \<forall>b\<in>set bs. nest a b"
      by (auto simp: sorted_wrt_append)
    have a: "\<forall>a\<in>set as. nest a ?pm'"
      using s(3) d(2) by (auto simp: nest_def unclosed_def)
    have b: "\<forall>b\<in>set bs. nest ?pm' b"
    proof
      fix b assume b: "b \<in> set bs"
      with d(3) obtain e' where e': "end' b = Some e'" by (auto simp: unclosed_def)
      with en b d(1) have "e' \<le> i" by auto
      with e' show "nest ?pm' b" by (simp add: nest_def)
    qed
    from s a b show ?thesis by (simp add: sorted_wrt_append)
  qed
  have c7: "\<forall>p\<in>set ?ps'. level p = depth_at tokens (Suc (start p))"
    using de d(1) by auto
  have c8: "fst (lifo_run tokens (Suc i)) = rev (map start (filter unclosed ?ps'))"
    using run d by (simp add: unclosed_def)
  have c9: "\<forall>p\<in>set ?ps'.
              end' p = map_option Suc (map_of (snd (lifo_run tokens (Suc i))) (start p))"
  proof
    fix p assume p: "p \<in> set ?ps'"
    show "end' p = map_option Suc (map_of (snd (lifo_run tokens (Suc i))) (start p))"
    proof (cases "p = ?pm'")
      case True
      then show ?thesis using run by simp
    next
      case False
      with p have pin: "p \<in> set as \<or> p \<in> set bs" by auto
      then have "p \<in> set ps" using d(1) by auto
      with pa sp have e: "end' p = map_option Suc (map_of pairs (start p))" by simp
      from dist d(1) pin have "start p \<noteq> start pm" by (auto simp: image_iff)
      with e run show ?thesis by simp
    qed
  qed
  have c10: "\<forall>s\<in>fst ` set (snd (lifo_run tokens (Suc i))). s < Suc i"
    using ke sp run pm_lt by (auto simp: less_Suc_eq)
  have c11: "\<forall>p\<in>set ?ps'. depth_profile tokens (Suc i) p"
  proof
    fix p assume p: "p \<in> set ?ps'"
    show "depth_profile tokens (Suc i) p"
    proof (cases "p = ?pm'")
      case True
      from pr d(1,2) have "\<forall>j. start pm < j \<and> j \<le> i \<longrightarrow> level pm \<le> depth_at tokens j"
        by (auto simp: depth_profile_def unclosed_def)
      with True c1 d(4) show ?thesis by (auto simp: depth_profile_def)
    next
      case False
      with p have pin: "p \<in> set as \<or> p \<in> set bs" by auto
      then have ps: "p \<in> set ps" using d(1) by auto
      show ?thesis
      proof (rule depth_profile_other)
        show "depth_profile tokens i p" using pr ps by blast
        show "unclosed p \<longrightarrow> level p \<le> depth_at tokens (Suc i)"
        proof
          assume u: "unclosed p"
          with pin d(3) have "p \<in> set as" by blast
          from unclosed_level_le[OF d(5) this u] c1 show "level p \<le> depth_at tokens (Suc i)"
            by simp
        qed
      qed
    qed
  qed
  have c12: "\<forall>k<length ?ps'. level_counts ?ps' k"
  proof (intro allI impI)
    fix k assume k: "k < length ?ps'"
    then have kl: "k < length ps" using d(1) by simp
    with I have old: "level_counts ps k" by (simp add: resolver_inv_def)
    have upd: "?ps' = ps[length as := ?pm']" using d(1) by simp
    have pmk: "ps ! length as = pm" using d(1) by simp
    have sl: "start (?ps' ! k) = start (ps ! k)" "level (?ps' ! k) = level (ps ! k)"
      using kl pmk unfolding upd by (cases "k = length as"; simp)+
    have "start (ps ! k) \<in> set (map start ps)" using kl by simp
    then have sk: "start (ps ! k) < i" unfolding st by simp
    have "length (filter (still_open_at (start (ps ! k))) (take k ?ps')) =
          length (filter (still_open_at (start (ps ! k))) (take k ps))"
    proof (rule filter_length_cong)
      show "length (take k ?ps') = length (take k ps)" using d(1) by simp
    next
      show "\<forall>j<length (take k ?ps').
              still_open_at (start (ps ! k)) (take k ?ps' ! j) =
              still_open_at (start (ps ! k)) (take k ps ! j)"
      proof (intro allI impI)
        fix j assume "j < length (take k ?ps')"
        then have j: "j < k" "j < length ps" using d(1) by simp_all
        show "still_open_at (start (ps ! k)) (take k ?ps' ! j) =
              still_open_at (start (ps ! k)) (take k ps ! j)"
        proof (cases "j = length as")
          case True
          with j d(1,2) sk show ?thesis
            by (simp add: still_open_at_def unclosed_def nth_append)
        next
          case False
          with j show ?thesis by (simp add: upd nth_list_update)
        qed
      qed
    qed
    with old sl show "level_counts ?ps' k" by (simp add: level_counts_def)
  qed
  show ?thesis
    unfolding resolver_inv_def res
    by (intro conjI) (rule c1 c2 c3 c4 c5 c6 c7 c8 c9 c10 c11 c12)+
qed

subsection \<open>The loop returns when the running depth is never negative\<close>

lemma loop_inv:
  assumes nn: "\<forall>j\<le>length tokens. 0 \<le> depth_at tokens j"
  shows "i \<le> length tokens \<Longrightarrow> resolver_inv tokens i ps lv \<Longrightarrow>
         \<exists>ps'. parentheses_loop tokens i ps lv = Inr ps' \<and>
               resolver_inv tokens (length tokens) ps' (depth tokens)"
proof (induction "length tokens - i" arbitrary: i ps lv)
  case 0
  then have "i = length tokens" by simp
  moreover from this 0 have "lv = depth tokens" by (simp add: resolver_inv_def)
  ultimately show ?case using 0
    by (subst parentheses_loop.simps) simp
next
  case (Suc n)
  then have il: "i < length tokens" by simp
  from Suc(4) have lv: "lv = depth_at tokens i" by (simp add: resolver_inv_def)
  have IH: "resolver_inv tokens (Suc i) ps' lv' \<Longrightarrow>
     \<exists>ps''. parentheses_loop tokens (Suc i) ps' lv' = Inr ps'' \<and>
            resolver_inv tokens (length tokens) ps'' (depth tokens)" for ps' lv'
    using Suc(1)[of "Suc i" ps' lv'] Suc(2) il by simp
  consider (op) "is_open (tokens ! i)"
    | (cl) "\<not> is_open (tokens ! i)" "is_close (tokens ! i)"
    | (ot) "\<not> is_open (tokens ! i)" "\<not> is_close (tokens ! i)" by blast
  then show ?case
  proof cases
    case op
    from IH[OF inv_open[OF Suc(4) il op]] op il show ?thesis
      by (subst parentheses_loop.simps) (simp add: is_open_def)
  next
    case cl
    from nn il have "0 \<le> depth_at tokens (Suc i)" by simp
    with cl il lv have lv1: "1 \<le> lv" by (simp add: depth_at_Suc)
    from IH[OF inv_close[OF Suc(4) il cl(2) cl(1) lv1]] cl il lv1 show ?thesis
      by (subst parentheses_loop.simps) (simp add: is_open_def is_close_def)
  next
    case ot
    from IH[OF inv_other[OF Suc(4) il ot]] ot il show ?thesis
      by (subst parentheses_loop.simps) (simp add: is_open_def is_close_def)
  qed
qed

lemma parentheses_inv:
  assumes "never_negative tokens (length tokens)"
  shows "\<exists>ps. parentheses tokens = Inr ps \<and>
              resolver_inv tokens (length tokens) ps (depth tokens)"
  using loop_inv[of tokens 0 "[]" 0] assms
  by (simp add: parentheses_def never_negative_iff inv_init)

subsection \<open>What the invariant says of the returned blocks\<close>

lemma inv_all_closed:
  assumes "resolver_inv tokens n ps 0"
  shows "\<forall>p\<in>set ps. \<exists>e. end' p = Some e"
proof -
  from assms have "filter unclosed ps = []" by (simp add: resolver_inv_def)
  then show ?thesis by (auto simp: filter_empty_conv unclosed_def)
qed

lemma inv_start_open:
  assumes "resolver_inv tokens n ps lv" "p \<in> set ps"
  shows "start p < n \<and> is_open (tokens ! start p)"
proof -
  from assms(2) have "start p \<in> set (map start ps)" by simp
  with assms(1) show ?thesis by (simp add: resolver_inv_def)
qed

lemma inv_starts_sorted:
  assumes "resolver_inv tokens n ps lv" "k < l" "l < length ps"
  shows "start (ps ! k) < start (ps ! l)"
proof -
  have "sorted_wrt (<) (filter (\<lambda>j. is_open (tokens ! j)) [0..<n])"
    by (rule sorted_wrt_filter) simp
  with assms(1) have "sorted_wrt (<) (map start ps)" by (simp add: resolver_inv_def)
  with assms(2,3) show ?thesis
    by (auto simp: sorted_wrt_map sorted_wrt_iff_nth_less)
qed

lemma inv_pair:
  assumes I: "resolver_inv tokens n ps 0" and kl: "k < l" "l < length ps"
  shows "disjoint_blocks (ps ! k) (ps ! l) \<or> strictly_contains (ps ! k) (ps ! l)"
proof -
  from kl have k: "ps ! k \<in> set ps" and l: "ps ! l \<in> set ps" by simp_all
  from inv_all_closed[OF I] k l obtain e e' where
    e: "end' (ps ! k) = Some e" "end' (ps ! l) = Some e'"
    by blast
  from I have "sorted_wrt nest ps" by (simp add: resolver_inv_def)
  with kl have "nest (ps ! k) (ps ! l)" by (simp add: sorted_wrt_iff_nth_less)
  with e have "e \<le> start (ps ! l) \<or> e' < e" by (auto simp: nest_def)
  with e inv_starts_sorted[OF I kl] show ?thesis
    by (auto simp: disjoint_blocks_def strictly_contains_def)
qed

lemma inv_properly_nested:
  assumes I: "resolver_inv tokens n ps 0"
  shows "properly_nested ps"
  unfolding properly_nested_def
proof (intro allI impI)
  fix k l assume k: "k < length ps" and l: "l < length ps" and kl: "k \<noteq> l"
  from kl consider "k < l" | "l < k" by linarith
  then show "disjoint_blocks (ps ! k) (ps ! l) \<or> strictly_contains (ps ! k) (ps ! l) \<or>
        strictly_contains (ps ! l) (ps ! k)"
  proof cases
    case 1
    from inv_pair[OF I 1 l] show ?thesis by blast
  next
    case 2
    from inv_pair[OF I 2 k] show ?thesis by (auto simp: disjoint_blocks_def)
  qed
qed

lemma inv_one_block_per_open:
  assumes I: "resolver_inv tokens n ps lv" and i: "i < n" "is_open (tokens ! i)"
  shows "\<exists>!k. k < length ps \<and> start (ps ! k) = i"
proof -
  from I have st: "map start ps = filter (\<lambda>j. is_open (tokens ! j)) [0..<n]"
    by (simp add: resolver_inv_def)
  then have dist: "distinct (map start ps)" by simp
  from i st have "i \<in> set (map start ps)" by simp
  then obtain k where k: "k < length ps" "start (ps ! k) = i"
    by (auto simp: in_set_conv_nth)
  show ?thesis
  proof (rule ex1I[of _ k])
    show "k < length ps \<and> start (ps ! k) = i" using k by simp
  next
    fix k' assume k': "k' < length ps \<and> start (ps ! k') = i"
    with k have "map start ps ! k' = map start ps ! k" "k' < length (map start ps)"
      "k < length (map start ps)" by simp_all
    with dist show "k' = k" using nth_eq_iff_index_eq by blast
  qed
qed

lemma inv_matching:
  assumes I: "resolver_inv tokens (length tokens) ps lv" and p: "p \<in> set ps"
  shows "end' p = map_option Suc (matching_close tokens (start p))"
  using I p by (simp add: resolver_inv_def matching_close_def)



subsection \<open>The claims on the resolver\<close>

text \<open>
  Claim C3. For every token sequence with an excess closing parenthesis (a closing token
  at which the running depth would go negative), \<open>parentheses\<close> fails with the
  bad-parentheses error that reports the index of that token. A sequence has at most
  one such token, since the depth is not negative before it.
\<close>

theorem parentheses_excess_close:
  assumes "excess_close tokens i"
  shows "parentheses tokens = Inl (Bad_parentheses_syntax i) \<and>
         (\<forall>i'. excess_close tokens i' \<longrightarrow> i' = i)"
proof -
  have "parentheses tokens = Inl (Bad_parentheses_syntax i)"
    unfolding parentheses_def by (rule loop_error[OF assms]) simp_all
  with excess_close_unique[OF assms] show ?thesis by blast
qed

theorem parentheses_excess_close_witness:
  "excess_close [tok ''paren_open'', tok ''paren_close'', tok ''paren_close'', tok ''paren_close''] 2 \<and>
   parentheses [tok ''paren_open'', tok ''paren_close'', tok ''paren_close'', tok ''paren_close'']
     = Inl (Bad_parentheses_syntax 2)"
proof -
  have h: "excess_close
             [tok ''paren_open'', tok ''paren_close'', tok ''paren_close'', tok ''paren_close''] 2"
    by code_simp
  from parentheses_excess_close[OF h] h show ?thesis by blast
qed

text \<open>
  Claim C4. For every token sequence with balanced parentheses, \<open>parentheses\<close> returns
  blocks that are all closed and properly nested (any two of them are disjoint, or one
  strictly contains the other), and every opening token is the start of exactly one
  returned block; conversely every block starts at an opening token.
\<close>

theorem parentheses_properly_nested:
  assumes "balanced tokens"
  shows "\<exists>ps. parentheses tokens = Inr ps \<and>
           (\<forall>p\<in>set ps. \<exists>e. end' p = Some e \<and> start p < e) \<and>
           properly_nested ps \<and>
           (\<forall>i<length tokens. is_open (tokens ! i) \<longrightarrow>
              (\<exists>!k. k < length ps \<and> start (ps ! k) = i)) \<and>
           (\<forall>p\<in>set ps. start p < length tokens \<and> is_open (tokens ! start p))"
proof -
  from assms have nn: "never_negative tokens (length tokens)" and d: "depth tokens = 0"
    by (simp_all add: balanced_def)
  from parentheses_inv[OF nn] d obtain ps where
    ps: "parentheses tokens = Inr ps" and I: "resolver_inv tokens (length tokens) ps 0" by auto
  have a: "\<forall>p\<in>set ps. \<exists>e. end' p = Some e \<and> start p < e"
  proof
    fix p assume p: "p \<in> set ps"
    with inv_all_closed[OF I] obtain e where e: "end' p = Some e" by blast
    with I p have "start p + 2 \<le> e" by (auto simp: resolver_inv_def)
    with e show "\<exists>e. end' p = Some e \<and> start p < e" by simp
  qed
  have c: "\<forall>i<length tokens. is_open (tokens ! i) \<longrightarrow>
             (\<exists>!k. k < length ps \<and> start (ps ! k) = i)"
    using inv_one_block_per_open[OF I] by blast
  have e: "\<forall>p\<in>set ps. start p < length tokens \<and> is_open (tokens ! start p)"
    using inv_start_open[OF I] by blast
  from ps a inv_properly_nested[OF I] c e show ?thesis by blast
qed

theorem parentheses_properly_nested_witness:
  "balanced [tok ''paren_open'', tok ''paren_open'', tok ''number'', tok ''paren_close'',
             tok ''paren_open'', tok ''paren_close'', tok ''paren_close''] \<and>
   parentheses [tok ''paren_open'', tok ''paren_open'', tok ''number'', tok ''paren_close'',
             tok ''paren_open'', tok ''paren_close'', tok ''paren_close'']
     = Inr [\<lparr>start = 0, end' = Some 7, level = 1\<rparr>,
            \<lparr>start = 1, end' = Some 4, level = 2\<rparr>,
            \<lparr>start = 4, end' = Some 6, level = 2\<rparr>] \<and>
   properly_nested [\<lparr>start = 0, end' = Some 7, level = 1\<rparr>,
            \<lparr>start = 1, end' = Some 4, level = 2\<rparr>,
            \<lparr>start = 4, end' = Some 6, level = 2\<rparr>]"
proof -
  let ?ts = "[tok ''paren_open'', tok ''paren_open'', tok ''number'', tok ''paren_close'',
             tok ''paren_open'', tok ''paren_close'', tok ''paren_close'']"
  have h: "balanced ?ts" by code_simp
  have v: "parentheses ?ts = Inr [\<lparr>start = 0, end' = Some 7, level = 1\<rparr>,
            \<lparr>start = 1, end' = Some 4, level = 2\<rparr>,
            \<lparr>start = 4, end' = Some 6, level = 2\<rparr>]" by code_simp
  from parentheses_properly_nested[OF h] h v show ?thesis by simp
qed



text \<open>
  Claim C7. For every token sequence whose running depth never goes negative but is
  positive at the end of the input, \<open>parentheses\<close> returns without an error; as many
  blocks as the final depth keep \<open>end = null\<close>, and they are the blocks whose opening
  token the stack matching leaves unmatched: the running depth never falls below their
  level again.
\<close>

theorem parentheses_trailing_unclosed:
  assumes "never_negative tokens (length tokens)" and "0 < depth tokens"
  shows "\<exists>ps. parentheses tokens = Inr ps \<and>
           length (filter (\<lambda>p. end' p = None) ps) = nat (depth tokens) \<and>
           (\<forall>p\<in>set ps. (end' p = None) = (matching_close tokens (start p) = None)) \<and>
           (\<forall>p\<in>set ps. end' p = None \<longrightarrow>
              (\<forall>j. start p < j \<and> j \<le> length tokens \<longrightarrow> level p \<le> depth_at tokens j))"
proof -
  from parentheses_inv[OF assms(1)] obtain ps where
    ps: "parentheses tokens = Inr ps"
    and I: "resolver_inv tokens (length tokens) ps (depth tokens)" by auto
  from I have "map level (filter unclosed ps) = [1..depth tokens]"
    by (simp add: resolver_inv_def)
  then have "length (map level (filter unclosed ps)) = length [1..depth tokens]" by simp
  then have n: "length (filter (\<lambda>p. end' p = None) ps) = nat (depth tokens)"
    by (simp add: unclosed_def[abs_def])
  have m: "\<forall>p\<in>set ps. (end' p = None) = (matching_close tokens (start p) = None)"
    using inv_matching[OF I] by simp
  have u: "\<forall>p\<in>set ps. end' p = None \<longrightarrow>
              (\<forall>j. start p < j \<and> j \<le> length tokens \<longrightarrow> level p \<le> depth_at tokens j)"
    using I by (auto simp: resolver_inv_def depth_profile_def)
  from ps n m u show ?thesis by blast
qed

theorem parentheses_trailing_unclosed_witness:
  "never_negative
     [tok ''paren_open'', tok ''paren_open'', tok ''number'', tok ''paren_close'', tok ''paren_open'']
     (length
        [tok ''paren_open'', tok ''paren_open'', tok ''number'', tok ''paren_close'', tok ''paren_open'']) \<and>
   0 < depth
     [tok ''paren_open'', tok ''paren_open'', tok ''number'', tok ''paren_close'', tok ''paren_open''] \<and>
   parentheses
     [tok ''paren_open'', tok ''paren_open'', tok ''number'', tok ''paren_close'', tok ''paren_open'']
     = Inr [\<lparr>start = 0, end' = None, level = 1\<rparr>,
            \<lparr>start = 1, end' = Some 4, level = 2\<rparr>,
            \<lparr>start = 4, end' = None, level = 2\<rparr>] \<and>
   nat (depth
     [tok ''paren_open'', tok ''paren_open'', tok ''number'', tok ''paren_close'', tok ''paren_open''])
     = 2"
proof -
  let ?ts = "[tok ''paren_open'', tok ''paren_open'', tok ''number'', tok ''paren_close'',
              tok ''paren_open'']"
  have h1: "never_negative ?ts (length ?ts)" by code_simp
  have h2: "0 < depth ?ts" by code_simp
  have v: "parentheses ?ts = Inr [\<lparr>start = 0, end' = None, level = 1\<rparr>,
            \<lparr>start = 1, end' = Some 4, level = 2\<rparr>,
            \<lparr>start = 4, end' = None, level = 2\<rparr>]" by code_simp
  from parentheses_trailing_unclosed[OF h1 h2] v
  have "length (filter (\<lambda>p. end' p = None) [\<lparr>start = 0, end' = None, level = 1\<rparr>,
            \<lparr>start = 1, end' = Some 4, level = 2\<rparr>,
            \<lparr>start = 4, end' = None, level = (2::int)\<rparr>]) = nat (depth ?ts)" by simp
  then have "nat (depth ?ts) = 2" by simp
  with h1 h2 v show ?thesis by simp
qed

section \<open>Properties of the evaluators\<close>

subsection \<open>The only error of a tree walk is the type error\<close>

lemma traverse_error: "traverse N t = Inl e \<Longrightarrow> e = TypeError"
  by (induction N t arbitrary: e rule: traverse.induct)
     (auto split: list.splits sum.splits if_splits)

lemma unary_error: "unary N f a = Inl e \<Longrightarrow> a = Inl e"
  by (auto simp: unary_def split: sum.splits)

lemma binary_error: "binary N f a b = Inl e \<Longrightarrow> a = Inl e \<or> b = Inl e"
  by (auto simp: binary_def split: sum.splits)

lemma call_error:
  "traverse N t = Inr f \<Longrightarrow> call f vs = Inl e \<Longrightarrow> e = TypeError"
proof (induction N t arbitrary: e f rule: traverse.induct)
  case (1 N child)
  then show ?case
    by (auto simp: call_def split: list.splits sum.splits option.splits)
next
  case (2 N operator child)
  then show ?case
    by (auto simp: call_def split: sum.splits option.splits if_splits dest!: unary_error)
next
  case (3 N operator left right)
  then show ?case
    by (auto simp: call_def split: sum.splits option.splits if_splits dest!: binary_error)
qed (auto simp: call_def split: option.splits)

lemma compiled_error: "compiled N t vs = Inl e \<Longrightarrow> e = TypeError"
  by (auto simp: compiled_def split: sum.splits dest: traverse_error call_error)

subsection \<open>The compiled closure, node by node\<close>

lemma compiled_Block:
  "compiled N (Block (c # cs)) vs = compiled N c vs"
  by (simp add: compiled_def call_def split: sum.splits)

lemma compiled_Unary_plus:
  "compiled N (Unary_operator ''+'' c) vs = compiled N c vs"
  by (simp add: compiled_def call_def split: sum.splits)

lemma compiled_Unary_minus:
  "compiled N (Unary_operator ''-'' c) vs = unary N (js_neg N) (compiled N c vs)"
  by (simp add: compiled_def call_def unary_def split: sum.splits)

lemma binary_TypeError:
  "a = Inl TypeError \<or> (\<exists>x. a = Inr x) \<Longrightarrow> binary N f a (Inl TypeError) = Inl TypeError"
  by (auto simp: binary_def)

lemma compiled_binary_aux:
  assumes "\<And>lf rf. traverse N (Binary_operator operator l r) =
            (case traverse N l of Inl e \<Rightarrow> Inl e
             | Inr lf \<Rightarrow> (case traverse N r of Inl e \<Rightarrow> Inl e
                | Inr rf \<Rightarrow> Inr (Some (\<lambda>vars. binary N f (call lf vars) (call rf vars)))))"
  shows "compiled N (Binary_operator operator l r) vs = binary N f (compiled N l vs) (compiled N r vs)"
proof (cases "traverse N l")
  case (Inl e)
  then show ?thesis using assms by (simp add: compiled_def binary_def)
next
  case l: (Inr lf)
  show ?thesis
  proof (cases "traverse N r")
    case (Inl e)
    then have e: "e = TypeError" by (rule traverse_error)
    have "call lf vs = Inl TypeError \<or> (\<exists>x. call lf vs = Inr x)"
      using call_error[OF l, of vs] by (cases "call lf vs") auto
    then have "binary N f (call lf vs) (Inl TypeError) = Inl TypeError"
      by (rule binary_TypeError)
    with l Inl e show ?thesis using assms by (simp add: compiled_def)
  next
    case (Inr rf)
    with l show ?thesis using assms by (simp add: compiled_def call_def)
  qed
qed

lemma compiled_add:
  "compiled N (Binary_operator ''+'' l r) vs = binary N (js_add N) (compiled N l vs) (compiled N r vs)"
  by (rule compiled_binary_aux) (simp split: sum.splits)

lemma compiled_sub:
  "compiled N (Binary_operator ''-'' l r) vs = binary N (js_sub N) (compiled N l vs) (compiled N r vs)"
  by (rule compiled_binary_aux) (simp split: sum.splits)

lemma compiled_mul:
  "compiled N (Binary_operator ''*'' l r) vs = binary N (js_mul N) (compiled N l vs) (compiled N r vs)"
  by (rule compiled_binary_aux) (simp split: sum.splits)

lemma compiled_div:
  "compiled N (Binary_operator ''/'' l r) vs = binary N (js_div N) (compiled N l vs) (compiled N r vs)"
  by (rule compiled_binary_aux) (simp split: sum.splits)

lemma compiled_pow:
  "compiled N (Binary_operator ''^'' l r) vs = binary N (js_pow N) (compiled N l vs) (compiled N r vs)"
  by (rule compiled_binary_aux) (simp split: sum.splits)

lemma compiled_Literal: "compiled N (Literal v) vs = Inr (Num (js_parseFloat N v))"
  by (simp add: compiled_def call_def)

lemma compiled_Variable: "compiled N (Variable name) vs = Inr (get_property vs name)"
  by (simp add: compiled_def call_def)

lemmas compiled_simps = compiled_Block compiled_Unary_plus compiled_Unary_minus compiled_add
  compiled_sub compiled_mul compiled_div compiled_pow compiled_Literal compiled_Variable

lemma compiled_no_failure:
  "well_formed t \<Longrightarrow> \<exists>v. compiled N t vs = Inr v"
  by (induction t rule: well_formed.induct)
     (auto simp: compiled_simps unary_def binary_def split: list.splits)


lemma unary_Num [simp]: "unary N f (Inr (Num x)) = Inr (Num (f x))"
  by (simp add: unary_def to_number_def)

lemma binary_Num [simp]: "binary N f (Inr (Num x)) (Inr (Num y)) = Inr (Num (f x y))"
  by (simp add: binary_def to_number_def)

lemma compiled_spec_value:
  "well_formed t \<Longrightarrow> set (variables_of t) \<subseteq> fmdom' vs \<Longrightarrow>
   compiled N t vs = Inr (Num (spec_value N t vs))"
proof (induction t rule: well_formed.induct)
  case (1 child)
  then show ?case by (cases child) (simp_all add: compiled_Block)
next
  case (2 operator child)
  then have c: "compiled N child vs = Inr (Num (spec_value N child vs))" by simp
  from 2(2) have "operator = ''+'' \<or> operator = ''-''" by simp
  then show ?case
    by (elim disjE) (simp_all add: compiled_Unary_plus compiled_Unary_minus c)
next
  case (3 operator left right)
  then have l: "compiled N left vs = Inr (Num (spec_value N left vs))"
    and r: "compiled N right vs = Inr (Num (spec_value N right vs))" by simp_all
  from 3(3) have "operator = ''+'' \<or> operator = ''-'' \<or> operator = ''*'' \<or> operator = ''/'' \<or> operator = ''^''"
    by simp
  then show ?case
    by (elim disjE)
       (simp_all add: compiled_add compiled_sub compiled_mul compiled_div compiled_pow l r)
next
  case (4 v)
  show ?case by (simp add: compiled_Literal)
next
  case (5 name)
  then obtain x where "fmlookup vs name = Some x" by (auto simp: fmlookup_dom'_iff)
  then show ?case by (simp add: compiled_Variable get_property_def)
next
  case (6 t)
  then show ?case by simp
qed

lemma evaluators_agree:
  "well_formed t \<Longrightarrow> pow_free t \<Longrightarrow>
   \<forall>s\<in>set (literals_of t). js_parseInt N s = js_parseFloat N s \<Longrightarrow>
   compiled N t vs = fast_traverse N t vs"
  by (induction t rule: well_formed.induct)
     (auto simp: compiled_simps split: list.splits)

subsection \<open>The presence loop\<close>

lemma missing_value_loop_shadowed:
  "own_key b ''hasOwnProperty'' \<Longrightarrow> us \<noteq> [] \<Longrightarrow> missing_value_loop b us = Some TypeError"
  by (cases us) (simp_all add: hasOwnProperty_def own_key_def)

lemma missing_value_loop_unshadowed:
  "\<not> own_key b ''hasOwnProperty'' \<Longrightarrow>
   missing_value_loop b us = map_option Missing_value (find (\<lambda>v. \<not> own_key b v) us)"
  by (induction us) (simp_all add: hasOwnProperty_def own_key_def)

lemma find_None_all: "find Q xs = None \<longleftrightarrow> (\<forall>x\<in>set xs. \<not> Q x)"
  by (induction xs) auto

lemma find_Some_first:
  "find Q xs = Some v \<Longrightarrow> v \<in> set xs \<and> Q v"
  by (induction xs) (auto split: if_splits)

lemma find_exists: "\<exists>x\<in>set xs. Q x \<Longrightarrow> \<exists>v. find Q xs = Some v"
  by (cases "find Q xs") (auto simp: find_None_all)

lemma missing_value_loop_None:
  "missing_value_loop b us = None \<longleftrightarrow>
     (us = [] \<or> \<not> own_key b ''hasOwnProperty'') \<and> (\<forall>v\<in>set us. own_key b v)"
proof (cases "own_key b ''hasOwnProperty''")
  case True
  show ?thesis
  proof (cases "us = []")
    case True
    then show ?thesis by simp
  next
    case False
    with True missing_value_loop_shadowed[of b us] show ?thesis by simp
  qed
next
  case False
  then show ?thesis by (simp add: missing_value_loop_unshadowed find_None_all)
qed

subsection \<open>The object returned by \<open>evaluate\<close>\<close>

lemma evaluate_Inr:
  assumes "evaluate P N expression = Inr ev"
  shows "\<exists>tree. front_end P expression = Inr (tree, unknowns ev) \<and>
    (\<forall>b. calc ev b =
          (if keys_length b \<noteq> length (unknowns ev) then
             Inl (Incorrect_number_of_values (length (unknowns ev)) (keys_length b))
           else (case missing_value_loop b (unknowns ev) of
                   Some e \<Rightarrow> Inl e
                 | None \<Rightarrow> compiled N tree b)))"
proof (cases "front_end P expression")
  case (Inl e)
  with assms show ?thesis by (simp add: evaluate_def)
next
  case (Inr r)
  obtain tree us where r: "r = (tree, us)" by (cases r)
  show ?thesis
  proof (cases "traverse N tree")
    case (Inl e)
    with assms Inr r show ?thesis by (simp add: evaluate_def)
  next
    case f: (Inr f)
    with assms Inr r have ev: "ev = \<lparr>calc = (\<lambda>variables.
                     if keys_length variables \<noteq> length us then
                       Inl (Incorrect_number_of_values (length us) (keys_length variables))
                     else
                       (case missing_value_loop variables us of
                          Some e \<Rightarrow> Inl e
                        | None \<Rightarrow> call f variables)),
                  unknowns = us\<rparr>"
      by (simp add: evaluate_def)
    have u: "unknowns ev = us" by (simp add: ev)
    have c: "compiled N tree b = call f b" for b by (simp add: compiled_def f)
    have "front_end P expression = Inr (tree, unknowns ev)" using Inr r u by simp
    moreover have "calc ev b =
          (if keys_length b \<noteq> length (unknowns ev) then
             Inl (Incorrect_number_of_values (length (unknowns ev)) (keys_length b))
           else (case missing_value_loop b (unknowns ev) of
                   Some e \<Rightarrow> Inl e
                 | None \<Rightarrow> compiled N tree b))" for b
      unfolding u c by (simp add: ev)
    ultimately show ?thesis by blast
  qed
qed

lemma calc_eq:
  assumes "evaluate P N expression = Inr ev" "front_end P expression = Inr (tree, us)"
  shows "unknowns ev = us \<and>
         calc ev b =
          (if keys_length b \<noteq> length us then
             Inl (Incorrect_number_of_values (length us) (keys_length b))
           else (case missing_value_loop b us of
                   Some e \<Rightarrow> Inl e
                 | None \<Rightarrow> compiled N tree b))"
  using evaluate_Inr[OF assms(1)] assms(2) by auto

lemma evaluate_exists:
  assumes "front_end P expression = Inr (tree, us)" "well_formed tree"
  shows "\<exists>ev. evaluate P N expression = Inr ev"
proof -
  from compiled_no_failure[OF assms(2)] obtain w where
    "compiled N tree (fmempty :: (string, 'a) fmap) = Inr w" by blast
  then obtain f where "traverse N tree = Inr f"
    by (auto simp: compiled_def split: sum.splits)
  then show ?thesis using assms(1) by (simp add: evaluate_def)
qed

text \<open>
  Where the two evaluators agree: on a well-formed tree without \<open>^\<close> whose literals
  \<open>parseInt\<close> and \<open>parseFloat\<close> read alike, with bindings that pass the checks.
\<close>

lemma evaluators_agree_without_pow:
  assumes fe: "front_end P expression = Inr (tree, us)"
    and wf: "well_formed tree" and pf: "pow_free tree"
    and li: "\<forall>s\<in>set (literals_of tree). js_parseInt N s = js_parseFloat N s"
    and k: "keys_length values = length us"
    and n: "missing_value_loop values us = None"
  shows "\<exists>ev. evaluate P N expression = Inr ev \<and>
              calc ev values = fastEvaluate P N expression values"
proof -
  from evaluate_exists[OF fe wf] obtain ev where ev: "evaluate P N expression = Inr ev"
    by blast
  from calc_eq[OF ev fe, of "values"] k n have "calc ev values = compiled N tree values"
    by simp
  moreover have "fastEvaluate P N expression values = fast_traverse N tree values"
    using fe k n by (simp add: fastEvaluate_def)
  ultimately have "calc ev values = fastEvaluate P N expression values"
    using evaluators_agree[OF wf pf li] by simp
  with ev show ?thesis by blast
qed

subsection \<open>Evaluating the examples\<close>

lemma front_end_fixed [simp]: "front_end (fixed_front_end tree us) expression = Inr (tree, us)"
  by (simp add: front_end_def fixed_front_end_def)

lemmas bindings_simps = keys_length_def own_key_def hasOwnProperty_def
  fcard_finsert_if fcard_fempty

lemmas number_simps = js_numbers_def num_sub_def infinity_of_def is_integer_def int_power_def
  num_parseFloat_def num_parseInt_def strip_sign_def is_space_def is_digit_def
  digit_value_def digits_value_def exponent_factor_def Let_def

subsection \<open>\<open>calc\<close> on bindings that do not shadow \<open>hasOwnProperty\<close>\<close>

text \<open>
  When \<open>hasOwnProperty\<close> is no key of the bindings, \<open>calc\<close> fails with the arity
  error exactly when the number of keys differs from the length of \<open>unknowns\<close>; when
  the count matches and some unknown is no key, it fails with the missing-variable
  error that names the first such unknown; otherwise it returns what the closure at the
  root of the tree returns, which on a well-formed tree whose variables are among the
  unknowns is the numeric value of the tree.
\<close>

lemma calc_checks:
  assumes "evaluate P N expression = Inr ev" and ns: "\<not> own_key b ''hasOwnProperty''"
  shows "((\<exists>m n. calc ev b = Inl (Incorrect_number_of_values m n)) \<longleftrightarrow>
            keys_length b \<noteq> length (unknowns ev)) \<and>
         (keys_length b \<noteq> length (unknowns ev) \<longrightarrow>
            calc ev b = Inl (Incorrect_number_of_values (length (unknowns ev)) (keys_length b))) \<and>
         (keys_length b = length (unknowns ev) \<and> (\<exists>v\<in>set (unknowns ev). \<not> own_key b v) \<longrightarrow>
            (\<exists>v. find (\<lambda>v. \<not> own_key b v) (unknowns ev) = Some v \<and>
                 v \<in> set (unknowns ev) \<and> \<not> own_key b v \<and>
                 calc ev b = Inl (Missing_value v))) \<and>
         (keys_length b = length (unknowns ev) \<and> (\<forall>v\<in>set (unknowns ev). own_key b v) \<longrightarrow>
            (\<exists>tree. front_end P expression = Inr (tree, unknowns ev) \<and>
                    calc ev b = compiled N tree b \<and>
                    (well_formed tree \<and> set (variables_of tree) \<subseteq> set (unknowns ev) \<longrightarrow>
                       calc ev b = Inr (Num (spec_value N tree b)))))"
proof -
  from evaluate_Inr[OF assms(1)] obtain tree where
    fe: "front_end P expression = Inr (tree, unknowns ev)"
    and c0: "\<And>b. calc ev b =
          (if keys_length b \<noteq> length (unknowns ev) then
             Inl (Incorrect_number_of_values (length (unknowns ev)) (keys_length b))
           else (case missing_value_loop b (unknowns ev) of
                   Some e \<Rightarrow> Inl e
                 | None \<Rightarrow> compiled N tree b))"
    by blast
  have c: "calc ev b =
          (if keys_length b \<noteq> length (unknowns ev) then
             Inl (Incorrect_number_of_values (length (unknowns ev)) (keys_length b))
           else (case find (\<lambda>v. \<not> own_key b v) (unknowns ev) of
                   Some v \<Rightarrow> Inl (Missing_value v)
                 | None \<Rightarrow> compiled N tree b))"
    unfolding c0[of b] missing_value_loop_unshadowed[OF ns]
    by (cases "find (\<lambda>v. \<not> own_key b v) (unknowns ev)") simp_all
  have p2: "keys_length b \<noteq> length (unknowns ev) \<longrightarrow>
            calc ev b = Inl (Incorrect_number_of_values (length (unknowns ev)) (keys_length b))"
    by (simp add: c)
  have p1: "(\<exists>m n. calc ev b = Inl (Incorrect_number_of_values m n)) \<longleftrightarrow>
            keys_length b \<noteq> length (unknowns ev)"
  proof
    assume "\<exists>m n. calc ev b = Inl (Incorrect_number_of_values m n)"
    then obtain m n where mn: "calc ev b = Inl (Incorrect_number_of_values m n)" by blast
    show "keys_length b \<noteq> length (unknowns ev)"
    proof
      assume eq: "keys_length b = length (unknowns ev)"
      show False
      proof (cases "find (\<lambda>v. \<not> own_key b v) (unknowns ev)")
        case None
        with eq mn c have "compiled N tree b = Inl (Incorrect_number_of_values m n)" by simp
        then show False by (auto dest: compiled_error)
      next
        case (Some v)
        with eq mn c show False by simp
      qed
    qed
  next
    assume "keys_length b \<noteq> length (unknowns ev)"
    with p2 show "\<exists>m n. calc ev b = Inl (Incorrect_number_of_values m n)" by blast
  qed
  have p3: "keys_length b = length (unknowns ev) \<and> (\<exists>v\<in>set (unknowns ev). \<not> own_key b v) \<longrightarrow>
            (\<exists>v. find (\<lambda>v. \<not> own_key b v) (unknowns ev) = Some v \<and>
                 v \<in> set (unknowns ev) \<and> \<not> own_key b v \<and>
                 calc ev b = Inl (Missing_value v))"
  proof
    assume a: "keys_length b = length (unknowns ev) \<and> (\<exists>v\<in>set (unknowns ev). \<not> own_key b v)"
    then obtain v where v: "find (\<lambda>v. \<not> own_key b v) (unknowns ev) = Some v"
      using find_exists[of "unknowns ev" "\<lambda>v. \<not> own_key b v"] by blast
    from find_Some_first[OF v] have "v \<in> set (unknowns ev)" "\<not> own_key b v" by simp_all
    moreover from a v have "calc ev b = Inl (Missing_value v)" by (simp add: c)
    ultimately show "\<exists>v. find (\<lambda>v. \<not> own_key b v) (unknowns ev) = Some v \<and>
                 v \<in> set (unknowns ev) \<and> \<not> own_key b v \<and>
                 calc ev b = Inl (Missing_value v)" using v by blast
  qed
  have p4: "keys_length b = length (unknowns ev) \<and> (\<forall>v\<in>set (unknowns ev). own_key b v) \<longrightarrow>
            (\<exists>tree. front_end P expression = Inr (tree, unknowns ev) \<and>
                    calc ev b = compiled N tree b \<and>
                    (well_formed tree \<and> set (variables_of tree) \<subseteq> set (unknowns ev) \<longrightarrow>
                       calc ev b = Inr (Num (spec_value N tree b))))"
  proof
    assume a: "keys_length b = length (unknowns ev) \<and> (\<forall>v\<in>set (unknowns ev). own_key b v)"
    then have n: "find (\<lambda>v. \<not> own_key b v) (unknowns ev) = None"
      by (simp add: find_None_all)
    with a have cc: "calc ev b = compiled N tree b" by (simp add: c)
    have "calc ev b = Inr (Num (spec_value N tree b))"
      if w: "well_formed tree" and s: "set (variables_of tree) \<subseteq> set (unknowns ev)"
    proof -
      from a s have "set (variables_of tree) \<subseteq> fmdom' b"
        by (auto simp: own_key_def fmdom'_alt_def)
      with w cc show ?thesis by (simp add: compiled_spec_value)
    qed
    with fe cc show "\<exists>tree. front_end P expression = Inr (tree, unknowns ev) \<and>
                    calc ev b = compiled N tree b \<and>
                    (well_formed tree \<and> set (variables_of tree) \<subseteq> set (unknowns ev) \<longrightarrow>
                       calc ev b = Inr (Num (spec_value N tree b)))" by blast
  qed
  from p1 p2 p3 p4 show ?thesis by blast
qed

text \<open>The examples of the specification for \<open>x + y * 2\<close>.\<close>

lemma calc_checks_example:
  "\<exists>ev. evaluate (fixed_front_end
            (Binary_operator ''+'' (Variable ''x'')
               (Binary_operator ''*'' (Variable ''y'') (Literal ''2''))) [''x'', ''y''])
          js_numbers ''x + y * 2'' = Inr ev \<and>
        unknowns ev = [''x'', ''y''] \<and>
        calc ev (fmupd ''x'' (Fin 1) (fmupd ''y'' (Fin 3) fmempty)) = Inr (Num (Fin 7)) \<and>
        calc ev (fmupd ''x'' (Fin 1) fmempty) = Inl (Incorrect_number_of_values 2 1) \<and>
        calc ev (fmupd ''x'' (Fin 1) (fmupd ''z'' (Fin 3) fmempty)) = Inl (Missing_value ''y'')"
  by (simp add: evaluate_def call_def binary_def to_number_def get_property_def
        bindings_simps number_simps)

subsection \<open>The claims on the evaluators\<close>

text \<open>
  Claim C2 says that \<open>calc\<close>, for every binding mapping, fails with the
  missing-variable error when the count matches and some unknown is no key, and returns
  the numeric result when the count matches and every unknown is a key. The source tests
  a key with \<open>variables.hasOwnProperty(v)\<close>, a method looked up on the bindings. With
  the bindings \<open>{hasOwnProperty: 1}\<close> and the unknown \<open>x\<close> the count matches and
  \<open>x\<close> is no key, and \<open>calc\<close> raises a \<open>TypeError\<close> instead of the
  missing-variable error. With the bindings \<open>{hasOwnProperty: 0}\<close> and the unknown
  \<open>hasOwnProperty\<close> the count matches and the unknown is a key, and \<open>calc\<close> raises
  a \<open>TypeError\<close> instead of returning the value of \<open>1 / hasOwnProperty\<close>.
\<close>

theorem calc_shadowed_hasOwnProperty:
  "(\<exists>ev. evaluate (fixed_front_end (Variable ''x'') [''x'']) js_numbers ''x'' = Inr ev \<and>
         unknowns ev = [''x''] \<and>
         keys_length (fmupd ''hasOwnProperty'' (Fin 1) fmempty) = length (unknowns ev) \<and>
         \<not> own_key (fmupd ''hasOwnProperty'' (Fin 1) fmempty) ''x'' \<and>
         calc ev (fmupd ''hasOwnProperty'' (Fin 1) fmempty) = Inl TypeError) \<and>
   (\<exists>ev. evaluate
           (fixed_front_end
              (Binary_operator ''/'' (Literal ''1'') (Variable ''hasOwnProperty''))
              [''hasOwnProperty''])
           js_numbers ''1 / hasOwnProperty'' = Inr ev \<and>
         unknowns ev = [''hasOwnProperty''] \<and>
         keys_length (fmupd ''hasOwnProperty'' (Fin 0) fmempty) = length (unknowns ev) \<and>
         own_key (fmupd ''hasOwnProperty'' (Fin 0) fmempty) ''hasOwnProperty'' \<and>
         calc ev (fmupd ''hasOwnProperty'' (Fin 0) fmempty) = Inl TypeError)"
  by (simp add: evaluate_def bindings_simps)

text \<open>
  Claim C9. \<open>fastEvaluate\<close> makes the same arity and missing-variable checks as
  \<open>calc\<close>, before the tree walk: with a wrong number of keys or a missing unknown it
  fails with the error that \<open>calc\<close> gives, and the error is the same whatever tree
  the front end has built, so no node takes part in it. The error is the arity error
  when the count is wrong; with the right count it is the \<open>TypeError\<close> of the call
  of \<open>hasOwnProperty\<close> when the bindings have a key of that name, and otherwise the
  missing-variable error that names the first unknown that is no key.
\<close>

theorem fastEvaluate_checks_first:
  assumes "front_end P expression = Inr (tree, us)"
    and "keys_length values \<noteq> length us \<or> (\<exists>v\<in>set us. \<not> own_key values v)"
  shows "\<exists>e. ((keys_length values \<noteq> length us \<and>
                e = Incorrect_number_of_values (length us) (keys_length values)) \<or>
               (keys_length values = length us \<and> own_key values ''hasOwnProperty'' \<and>
                e = TypeError) \<or>
               (keys_length values = length us \<and> \<not> own_key values ''hasOwnProperty'' \<and>
                (\<exists>v. find (\<lambda>v. \<not> own_key values v) us = Some v \<and>
                     e = Missing_value v))) \<and>
           fastEvaluate P N expression values = Inl e \<and>
           (\<forall>P' tree'. front_end P' expression = Inr (tree', us) \<longrightarrow>
                fastEvaluate P' N expression values = Inl e) \<and>
           (\<forall>ev. evaluate P N expression = Inr ev \<longrightarrow> calc ev values = Inl e)"
proof -
  define e where "e = (if keys_length values \<noteq> length us
            then Incorrect_number_of_values (length us) (keys_length values)
            else (case missing_value_loop values us of Some x \<Rightarrow> x | None \<Rightarrow> TypeError))"
  have miss: "\<exists>v\<in>set us. \<not> own_key values v" if "keys_length values = length us"
    using assms(2) that by blast
  have l: "missing_value_loop values us = Some e" if k: "keys_length values = length us"
  proof -
    from miss[OF k] have "missing_value_loop values us \<noteq> None"
      by (auto simp: missing_value_loop_None)
    with k show ?thesis by (auto simp: e_def)
  qed
  have k: "(keys_length values \<noteq> length us \<and>
                e = Incorrect_number_of_values (length us) (keys_length values)) \<or>
               (keys_length values = length us \<and> own_key values ''hasOwnProperty'' \<and>
                e = TypeError) \<or>
               (keys_length values = length us \<and> \<not> own_key values ''hasOwnProperty'' \<and>
                (\<exists>v. find (\<lambda>v. \<not> own_key values v) us = Some v \<and>
                     e = Missing_value v))"
  proof (cases "keys_length values = length us")
    case False
    then show ?thesis by (simp add: e_def)
  next
    case True
    from miss[OF True] have ne: "us \<noteq> []" by auto
    show ?thesis
    proof (cases "own_key values ''hasOwnProperty''")
      case sh: True
      from missing_value_loop_shadowed[OF sh ne] l[OF True] have "e = TypeError" by simp
      with True sh show ?thesis by simp
    next
      case sh: False
      from miss[OF True] obtain v where v: "find (\<lambda>v. \<not> own_key values v) us = Some v"
        using find_exists[of us "\<lambda>v. \<not> own_key values v"] by blast
      with missing_value_loop_unshadowed[OF sh, of us] l[OF True] have "e = Missing_value v"
        by simp
      with True sh v show ?thesis by simp
    qed
  qed
  have le: "(if keys_length values \<noteq> length us then
               Inl (Incorrect_number_of_values (length us) (keys_length values))
             else (case missing_value_loop values us of Some x \<Rightarrow> Inl x | None \<Rightarrow> r)) = Inl e"
    for r :: "error + 'a jsval"
  proof (cases "keys_length values = length us")
    case True
    from l[OF True] True show ?thesis by simp
  next
    case False
    then show ?thesis by (simp add: e_def)
  qed
  have f: "fastEvaluate P' N expression values = Inl e"
    if "front_end P' expression = Inr (tree', us)" for P' tree'
    using that le[of "fast_traverse N tree' values"] by (simp add: fastEvaluate_def)
  have c: "calc ev values = Inl e" if ev: "evaluate P N expression = Inr ev" for ev
    using calc_eq[OF ev assms(1), of "values"] le[of "compiled N tree values"] by simp
  from k f[OF assms(1)] f c show ?thesis by blast
qed

theorem fastEvaluate_checks_first_witness:
  "fastEvaluate (fixed_front_end (Block []) [''x'']) js_numbers ''()'' fmempty
     = Inl (Incorrect_number_of_values 1 0) \<and>
   fastEvaluate (fixed_front_end (Variable ''x'') [''x'']) js_numbers ''x'' (fmupd ''z'' (Fin 3) fmempty)
     = Inl (Missing_value ''x'') \<and>
   (\<exists>ev. evaluate (fixed_front_end (Variable ''x'') [''x'']) js_numbers ''x'' = Inr ev \<and>
         calc ev (fmupd ''z'' (Fin 3) fmempty) = Inl (Missing_value ''x'') \<and>
         calc ev (fmupd ''hasOwnProperty'' (Fin 1) fmempty) = Inl TypeError) \<and>
   fastEvaluate (fixed_front_end (Variable ''x'') [''x'']) js_numbers ''x''
     (fmupd ''hasOwnProperty'' (Fin 1) fmempty) = Inl TypeError"
proof -
  have a: "front_end (fixed_front_end (Block []) [''x'']) ''()'' = Inr (Block [], [''x''])" by simp
  have ha: "keys_length (fmempty :: jsnum bindings) \<noteq> length [''x''] \<or>
            (\<exists>v\<in>set [''x'']. \<not> own_key (fmempty :: jsnum bindings) v)"
    by (simp add: bindings_simps)
  from fastEvaluate_checks_first[OF a ha, of js_numbers]
  have r1: "fastEvaluate (fixed_front_end (Block []) [''x'']) js_numbers ''()'' fmempty
     = Inl (Incorrect_number_of_values 1 0)"
    by (auto simp: bindings_simps)
  let ?P = "fixed_front_end (Variable ''x'') [''x'']"
  let ?b = "fmupd ''z'' (Fin 3) fmempty"
  let ?c = "fmupd ''hasOwnProperty'' (Fin 1) fmempty"
  have b: "front_end ?P ''x'' = Inr (Variable ''x'', [''x''])" by simp
  have hb: "keys_length ?b \<noteq> length [''x''] \<or> (\<exists>v\<in>set [''x'']. \<not> own_key ?b v)"
    by (simp add: bindings_simps)
  have hc: "keys_length ?c \<noteq> length [''x''] \<or> (\<exists>v\<in>set [''x'']. \<not> own_key ?c v)"
    by (simp add: bindings_simps)
  have "\<exists>ev. evaluate ?P js_numbers ''x'' = Inr ev" by (simp add: evaluate_def)
  then obtain ev where ev: "evaluate ?P js_numbers ''x'' = Inr ev" by blast
  from fastEvaluate_checks_first[OF b hb, of js_numbers] ev
  have r2: "fastEvaluate ?P js_numbers ''x'' ?b = Inl (Missing_value ''x'') \<and>
        calc ev ?b = Inl (Missing_value ''x'')"
    by (auto simp: bindings_simps)
  from fastEvaluate_checks_first[OF b hc, of js_numbers] ev
  have r3: "fastEvaluate ?P js_numbers ''x'' ?c = Inl TypeError \<and> calc ev ?c = Inl TypeError"
    by (auto simp: bindings_simps)
  from r1 r2 r3 ev show ?thesis by blast
qed



text \<open>
  Claim C6. The direct walk reads a literal with \<open>parseInt\<close>, the compiled walk reads
  it with \<open>parseFloat\<close>; for the literal \<open>2.5\<close> the first computes from 2 and the
  second from 2.5.
\<close>

theorem literal_parsing_differs:
  "fast_traverse N (Literal s) values = Inr (Num (js_parseInt N s)) \<and>
   compiled N (Literal s) values = Inr (Num (js_parseFloat N s)) \<and>
   fastEvaluate (fixed_front_end (Literal ''2.5'') []) js_numbers ''2.5'' fmempty = Inr (Num (Fin 2)) \<and>
   (\<exists>ev. evaluate (fixed_front_end (Literal ''2.5'') []) js_numbers ''2.5'' = Inr ev \<and>
         calc ev fmempty = Inr (Num (Fin (5 / 2))))"
  by (simp add: compiled_Literal fastEvaluate_def evaluate_def call_def bindings_simps number_simps)

text \<open>
  Claim C10. The direct walk has no case for the binary operator \<open>^\<close>: on such a
  node it returns \<open>undefined\<close>, without a look at the operands, while the compiled
  walk evaluates the node by exponentiation.
\<close>

theorem fast_traverse_ignores_pow:
  "fast_traverse N (Binary_operator ''^'' left right) values = Inr Undefined \<and>
   compiled N (Binary_operator ''^'' left right) values =
     binary N (js_pow N) (compiled N left values) (compiled N right values) \<and>
   compiled N (Binary_operator ''^'' (Literal a) (Literal b)) values =
     Inr (Num (js_pow N (js_parseFloat N a) (js_parseFloat N b)))"
  by (simp add: compiled_pow compiled_Literal)

text \<open>
  Claim C1 says that \<open>calc\<close> and \<open>fastEvaluate\<close> return the same number when the
  literals are integers. On the expression \<open>2 ^ 3\<close> they do not: \<open>calc\<close> returns 8
  and \<open>fastEvaluate\<close> returns \<open>undefined\<close>.
\<close>

theorem evaluators_disagree_on_pow:
  "fastEvaluate (fixed_front_end (Binary_operator ''^'' (Literal ''2'') (Literal ''3'')) [])
     js_numbers ''2 ^ 3'' fmempty = Inr Undefined \<and>
   (\<exists>ev. evaluate (fixed_front_end (Binary_operator ''^'' (Literal ''2'') (Literal ''3'')) [])
           js_numbers ''2 ^ 3'' = Inr ev \<and>
         calc ev fmempty = Inr (Num (Fin 8)))"
  by (simp add: fastEvaluate_def evaluate_def call_def bindings_simps number_simps)

end
